theory Spec2Isabelle
  imports Complex_Main
begin

section \<open>Smoothing of a band-pass spectrum on logarithmic bins\<close>

text \<open>
  The development follows \<^verbatim>\<open>bplogsmooth\<close> of \<^verbatim>\<open>deltasigma/_bplogsmooth.py\<close>.
  Bin numbers are integers (\<^typ>\<open>int\<close>, Python's unbounded integers), the samples of the
  spectrum are complex numbers and the arithmetic on frequencies and powers is exact
  real arithmetic. The two \<^verbatim>\<open>while\<close> loops are option-valued recursive functions, so
  that a loop that does not finish has the value \<open>None\<close>; an exception of the source is
  a value \<open>Inl e\<close>.
\<close>

subsection \<open>Errors and library functions\<close>

datatype error = PreconditionViolation | IndexError

text \<open>
  Modelled from the spec: \<^verbatim>\<open>mround\<close> of \<^verbatim>\<open>deltasigma/_utils.py\<close>, which is not part of the
  sources at hand. It rounds to the nearest integer; a tie goes away from zero.
\<close>

definition mround :: "real \<Rightarrow> int" where
  "mround x = (if 0 \<le> x then \<lfloor>x + 1 / 2\<rfloor> else \<lceil>x - 1 / 2\<rceil>)"

text \<open>
  Modelled from the spec: \<^verbatim>\<open>dbp\<close> of \<^verbatim>\<open>deltasigma/_dbp.py\<close>, which is not part of the
  sources at hand: ten times the decimal logarithm of a power ratio. \<open>None\<close> stands for
  the value at a ratio that is not positive, which is not a finite number.
\<close>

definition dbp :: "real \<Rightarrow> real option" where
  "dbp x = (if 0 < x then Some (10 * log 10 x) else None)"

text \<open>
  \<^verbatim>\<open>numpy.arange(start, stop, step)\<close> on integers: the values \<open>start + k * step\<close>
  for \<open>k\<close> below \<open>ceil((stop - start) / step)\<close>, none when that bound is not positive.
\<close>

definition arange :: "int \<Rightarrow> int \<Rightarrow> int \<Rightarrow> int list" where
  "arange start stop step =
     map (\<lambda>k. start + int k * step) [0 ..< nat (- ((start - stop) div step))]"

text \<open>
  A Python slice \<^verbatim>\<open>X[i:j]\<close>: a negative bound counts from the end, and both bounds are
  clipped to the length.
\<close>

definition clip_index :: "nat \<Rightarrow> int \<Rightarrow> nat" where
  "clip_index len i = (if i < 0 then nat (i + int len) else min (nat i) len)"

definition pyslice :: "'a list \<Rightarrow> int \<Rightarrow> int \<Rightarrow> 'a list" where
  "pyslice X i j =
     (let lo = clip_index (length X) i; hi = clip_index (length X) j
      in take (hi - lo) (drop lo X))"

text \<open>\<^verbatim>\<open>numpy.linalg.norm(v, ord=1)\<close> of a vector: the sum of the moduli.\<close>

definition norm1 :: "complex list \<Rightarrow> real" where
  "norm1 v = (\<Sum>x\<leftarrow>v. cmod x)"

subsection \<open>The two walks\<close>

text \<open>
  The update of the step, \<^verbatim>\<open>n = mround(min(n*1.1, 2**10))\<close>, with the exact product. On
  the integers from 8 to 1024, which are the steps that the loops pass, the product in
  double precision is within \<^verbatim>\<open>1e-12\<close> of the exact one, and it is not below the exact one
  where that is half an integer, so that it rounds to the same integer.
\<close>

definition grow :: "int \<Rightarrow> int" where
  "grow n = mround (min (real_of_int n * (11 / 10)) (2 ^ 10))"

text \<open>The loop of lines 55 to 58, on the state \<open>(usb1, m, n)\<close>.\<close>

partial_function (option) usb_walk :: "int list \<Rightarrow> int \<Rightarrow> int \<Rightarrow> nat \<Rightarrow> int list option" where
  "usb_walk usb1 m n N =
     (if real_of_int m + real_of_int n / 2 < real N / 2
      then usb_walk (usb1 @ [m]) (m + grow n) (grow n) N
      else Some usb1)"

text \<open>The loop of lines 64 to 67, on the state \<open>(lsb2, m, n)\<close>.\<close>

partial_function (option) lsb_walk :: "int list \<Rightarrow> int \<Rightarrow> int \<Rightarrow> int list option" where
  "lsb_walk lsb2 m n =
     (if real_of_int m - real_of_int n / 2 > 1
      then lsb_walk (lsb2 @ [m]) (m - grow n) (grow n)
      else Some lsb2)"

declare usb_walk.simps [code]
declare lsb_walk.simps [code]

subsection \<open>The bin edges\<close>

text \<open>
  Lines 49 to 53 and line 62: the edges laid down before each loop, from the bin \<open>tbin\<close>
  and the rounded tone bin \<open>bin0\<close>. The step \<open>n\<close> is \<open>8\<close> there.
\<close>

definition bin1_of :: "int \<Rightarrow> int \<Rightarrow> int" where
  "bin1_of tbin bin0 = ((tbin - bin0) mod 8) + bin0"

definition usb1_init :: "int \<Rightarrow> int \<Rightarrow> int list" where
  "usb1_init tbin bin0 =
     (let bin1 = bin1_of tbin bin0;
          bind = bin1 - bin0
      in arange bin1 (tbin + 1) 8 @ arange (tbin + 3) (tbin + bind + 1) 8)"

definition lsb2_init :: "int \<Rightarrow> int \<Rightarrow> int list" where
  "lsb2_init tbin bin0 =
     (let bin1 = bin1_of tbin bin0;
          bind = bin1 - bin0
      in map (\<lambda>x. x - 1) (arange bin1 (bin1 - 2 * bind + 1) (- 8)))"

text \<open>
  Lines 43 to 68, from the length \<open>N\<close> of the spectrum: the edges
  \<open>(lsb1, lsb2, usb1, usb2)\<close>, numbered from one. Reading the last element of an empty
  array raises \<^verbatim>\<open>IndexError\<close>.
\<close>

definition sidebands ::
  "nat \<Rightarrow> int \<Rightarrow> int \<Rightarrow> (error + int list \<times> int list \<times> int list \<times> int list) option" where
  "sidebands N tbin bin0 =
     (let N2 = int (N div 2) in
      if \<not> tbin > bin0 then Some (Inl PreconditionViolation)
      else
        let usb1 = usb1_init tbin bin0
        in if usb1 = [] then Some (Inl IndexError)
           else
             case usb_walk usb1 (last usb1 + 8) 8 N of
               None \<Rightarrow> None
             | Some usb1 \<Rightarrow>
                 let usb2 = map (\<lambda>x. x - 1) (tl usb1) @ [N2];
                     lsb2 = lsb2_init tbin bin0
                 in if lsb2 = [] then Some (Inl IndexError)
                    else
                      case lsb_walk lsb2 (last lsb2 - 8) 8 of
                        None \<Rightarrow> None
                      | Some lsb2 \<Rightarrow>
                          let lsb1 = map (\<lambda>x. x + 1) (tl lsb2) @ [1]
                          in Some (Inr (lsb1, lsb2, usb1, usb2)))"

text \<open>
  Lines 70 and 71: the bins numbered from zero, the lower sideband first. The source
  holds \<^verbatim>\<open>startbin\<close> as an array of floats with integral values; the slices of
  line 77 take them as the integers they are.
\<close>

definition startbin_of :: "int list \<times> int list \<times> int list \<times> int list \<Rightarrow> int list" where
  "startbin_of e = (case e of (lsb1, lsb2, usb1, usb2) \<Rightarrow> map (\<lambda>x. x - 1) (rev lsb1 @ usb1))"

definition stopbin_of :: "int list \<times> int list \<times> int list \<times> int list \<Rightarrow> int list" where
  "stopbin_of e = (case e of (lsb1, lsb2, usb1, usb2) \<Rightarrow> map (\<lambda>x. x - 1) (rev lsb2 @ usb2))"

definition bin_edges :: "nat \<Rightarrow> int \<Rightarrow> int \<Rightarrow> (error + int list \<times> int list) option" where
  "bin_edges N tbin bin0 =
     (case sidebands N tbin bin0 of
        None \<Rightarrow> None
      | Some (Inl e) \<Rightarrow> Some (Inl e)
      | Some (Inr e) \<Rightarrow> Some (Inr (startbin_of e, stopbin_of e)))"

subsection \<open>Frequencies and powers\<close>

text \<open>
  Line 73. A division of the array by \<open>N = 0\<close> gives values that are not finite numbers;
  they are \<open>None\<close>.
\<close>

definition freqs :: "nat \<Rightarrow> real \<Rightarrow> int list \<Rightarrow> int list \<Rightarrow> real option list" where
  "freqs N f0 startbin stopbin =
     map2 (\<lambda>a b. if N = 0 then None
                  else Some (((real_of_int a + real_of_int b) / 2) / real N - f0))
       startbin stopbin"

text \<open>Lines 77 to 79: the argument of \<^verbatim>\<open>dbp\<close> for the bin from \<open>a\<close> to \<open>b\<close>.\<close>

definition bin_power :: "complex list \<Rightarrow> int \<Rightarrow> int \<Rightarrow> real" where
  "bin_power X a b =
     norm1 (map (\<lambda>x. x ^ 2 / of_int (b - a + 1)) (pyslice X a (b + 1)))"

text \<open>Lines 74 to 80: one power for each frequency.\<close>

definition powers :: "complex list \<Rightarrow> int list \<Rightarrow> int list \<Rightarrow> 'a list \<Rightarrow> real option list" where
  "powers X startbin stopbin f =
     map (\<lambda>i. dbp (bin_power X (startbin ! i) (stopbin ! i))) [0 ..< length f]"

text \<open>The length \<open>N\<close> that the function works with, line 42.\<close>

definition fft_length :: "complex list \<Rightarrow> nat" where
  "fft_length X = length X"

text \<open>
  The function, on a spectrum \<open>X\<close> of one dimension. Line 41 squeezes the array: a
  spectrum of a single sample becomes an array without axes, and reading its first
  dimension on line 42 raises \<^verbatim>\<open>IndexError\<close>. The product \<open>f0 * N\<close> of line 47 is the exact
  one.
\<close>

definition bplogsmooth ::
  "complex list \<Rightarrow> int \<Rightarrow> real \<Rightarrow> (error + real option list \<times> real option list) option" where
  "bplogsmooth X tbin f0 =
     (if length X = 1 then Some (Inl IndexError)
      else
        let N = fft_length X;
            bin0 = mround (f0 * real N)
        in case bin_edges N tbin bin0 of
             None \<Rightarrow> None
           | Some (Inl e) \<Rightarrow> Some (Inl e)
           | Some (Inr (startbin, stopbin)) \<Rightarrow>
               let f = freqs N f0 startbin stopbin;
                   p = powers X startbin stopbin f
               in Some (Inr (f, p)))"

subsection \<open>Notions that the statements use\<close>

text \<open>The differences of neighbouring elements of a list of edges.\<close>

fun diffs :: "int list \<Rightarrow> int list" where
  "diffs (a # b # r) = (b - a) # diffs (b # r)"
| "diffs _ = []"

text \<open>The list \<open>a, a + s, a + 2 * s, \<dots>\<close> of \<open>n\<close> elements, which \<open>arange\<close> returns.\<close>

definition ramp :: "int \<Rightarrow> int \<Rightarrow> nat \<Rightarrow> int list" where
  "ramp a s n = map (\<lambda>k. a + int k * s) [0..<n]"

text \<open>
  The width \<open>stopbin[i] - startbin[i] + 1\<close> of every bin, and the widths of the bins of
  each sideband in the order of generation, which is outward from the tone.
\<close>

definition widths :: "int list \<Rightarrow> int list \<Rightarrow> int list" where
  "widths start stop = map2 (\<lambda>a b. b - a + 1) start stop"

definition upper_widths :: "int list \<times> int list \<times> int list \<times> int list \<Rightarrow> int list" where
  "upper_widths e = (case e of (lsb1, lsb2, usb1, usb2) \<Rightarrow> widths usb1 usb2)"

definition lower_widths :: "int list \<times> int list \<times> int list \<times> int list \<Rightarrow> int list" where
  "lower_widths e = (case e of (lsb1, lsb2, usb1, usb2) \<Rightarrow> widths lsb1 lsb2)"

text \<open>
  The widths of the bins other than the one that starts at the edge \<open>t\<close>; for the upper
  sideband, of the bins other than the outermost one and the one that starts at \<open>t\<close>.
\<close>

definition widths_except :: "int \<Rightarrow> int list \<Rightarrow> int list \<Rightarrow> int list" where
  "widths_except t start stop =
     map (\<lambda>(a, b). b - a + 1) (filter (\<lambda>(a, b). a \<noteq> t) (zip start stop))"

definition upper_widths_except ::
  "int \<Rightarrow> int list \<times> int list \<times> int list \<times> int list \<Rightarrow> int list" where
  "upper_widths_except t e =
     (case e of (lsb1, lsb2, usb1, usb2) \<Rightarrow> widths_except t (butlast usb1) (butlast usb2))"

text \<open>The indices that the bins hold, bin after bin.\<close>

definition covered :: "int list \<Rightarrow> int list \<Rightarrow> int list" where
  "covered start stop = concat (map2 (\<lambda>a b. [a..b]) start stop)"

text \<open>A list of frequencies is strictly ascending: all are finite, each below the next.\<close>

definition strictly_ascending :: "real option list \<Rightarrow> bool" where
  "strictly_ascending f = (list_all (\<lambda>x. x \<noteq> None) f \<and> sorted_wrt (<) (map the f))"

text \<open>
  The mean of the squared magnitudes of the samples \<open>a\<close> to \<open>b\<close>, both included: their
  sum over the number of samples.
\<close>

definition mean_sq :: "complex list \<Rightarrow> int \<Rightarrow> int \<Rightarrow> real" where
  "mean_sq X a b = (\<Sum>k\<leftarrow>[a..b]. (cmod (X ! nat k))\<^sup>2) / real_of_int (b - a + 1)"

text \<open>
  The length that the specification gives for \<open>N\<close>: twice the length of the spectrum.
\<close>

definition spec_fft_length :: "complex list \<Rightarrow> nat" where
  "spec_fft_length X = 2 * length X"

subsection \<open>The loops return\<close>

lemma grow_bounds: "8 \<le> n \<Longrightarrow> n \<le> 1024 \<Longrightarrow> n \<le> grow n \<and> grow n \<le> 1024"
  unfolding grow_def mround_def by (auto simp: min_def; linarith)

lemma usb_cond_int:
  "(real_of_int m + real_of_int n / 2 < real N / 2) = (2 * m + n < int N)"
proof -
  have "(real_of_int m + real_of_int n / 2 < real N / 2) = (real_of_int (2 * m + n) < real_of_int (int N))"
    by (simp del: of_int_add of_int_mult) (rule iffI; simp; linarith)
  also have "\<dots> = (2 * m + n < int N)"
    by (simp only: of_int_less_iff)
  finally show ?thesis .
qed

lemma lsb_cond_int:
  "(real_of_int m - real_of_int n / 2 > 1) = (2 < 2 * m - n)"
proof -
  have "(real_of_int m - real_of_int n / 2 > 1) = (real_of_int 2 < real_of_int (2 * m - n))"
    by (rule iffI; simp; linarith)
  also have "\<dots> = (2 < 2 * m - n)"
    by (simp only: of_int_less_iff)
  finally show ?thesis .
qed

lemma usb_walk_rule:
  assumes "I u m n" "8 \<le> n" "n \<le> 1024"
    and step: "\<And>u m n. I u m n \<Longrightarrow> 8 \<le> n \<Longrightarrow> n \<le> 1024 \<Longrightarrow> 2 * m + n < int N
                 \<Longrightarrow> I (u @ [m]) (m + grow n) (grow n)"
  shows "\<exists>r m' n'. usb_walk u m n N = Some r \<and> I r m' n' \<and> 8 \<le> n' \<and> n' \<le> 1024
            \<and> \<not> 2 * m' + n' < int N"
  using assms(1-3)
proof (induction "nat (int N - 2 * m)" arbitrary: u m n rule: less_induct)
  case less
  show ?case
  proof (cases "2 * m + n < int N")
    case True
    have g: "n \<le> grow n" "grow n \<le> 1024" using grow_bounds less.prems by auto
    have "0 < int N - 2 * m" "int N - 2 * (m + grow n) < int N - 2 * m"
      using True g less.prems by auto
    then have "nat (int N - 2 * (m + grow n)) < nat (int N - 2 * m)"
      by (simp only: nat_mono_iff)
    moreover have "I (u @ [m]) (m + grow n) (grow n)"
      using step less.prems True by blast
    ultimately obtain r m' n' where
      "usb_walk (u @ [m]) (m + grow n) (grow n) N = Some r" "I r m' n'" "8 \<le> n'" "n' \<le> 1024"
      "\<not> 2 * m' + n' < int N"
      using less.hyps [of "m + grow n" "u @ [m]" "grow n"] g less.prems by force
    moreover have "usb_walk u m n N = usb_walk (u @ [m]) (m + grow n) (grow n) N"
      using True by (subst usb_walk.simps) (simp only: usb_cond_int if_True)
    ultimately show ?thesis by metis
  next
    case False
    have "usb_walk u m n N = Some u"
      using False by (subst usb_walk.simps) (simp only: usb_cond_int if_False)
    then show ?thesis using less.prems False by blast
  qed
qed

lemma lsb_walk_rule:
  assumes "I l m n" "8 \<le> n" "n \<le> 1024"
    and step: "\<And>l m n. I l m n \<Longrightarrow> 8 \<le> n \<Longrightarrow> n \<le> 1024 \<Longrightarrow> 2 < 2 * m - n
                 \<Longrightarrow> I (l @ [m]) (m - grow n) (grow n)"
  shows "\<exists>r m' n'. lsb_walk l m n = Some r \<and> I r m' n' \<and> 8 \<le> n' \<and> n' \<le> 1024
            \<and> \<not> 2 < 2 * m' - n'"
  using assms(1-3)
proof (induction "nat (2 * m)" arbitrary: l m n rule: less_induct)
  case less
  show ?case
  proof (cases "2 < 2 * m - n")
    case True
    have g: "n \<le> grow n" "grow n \<le> 1024" using grow_bounds less.prems by auto
    have "0 < 2 * m" "2 * (m - grow n) < 2 * m"
      using True g less.prems by auto
    then have "nat (2 * (m - grow n)) < nat (2 * m)"
      by (simp only: nat_mono_iff)
    moreover have "I (l @ [m]) (m - grow n) (grow n)"
      using step less.prems True by blast
    ultimately obtain r m' n' where
      "lsb_walk (l @ [m]) (m - grow n) (grow n) = Some r" "I r m' n'" "8 \<le> n'" "n' \<le> 1024"
      "\<not> 2 < 2 * m' - n'"
      using less.hyps [of "m - grow n" "l @ [m]" "grow n"] g less.prems by force
    moreover have "lsb_walk l m n = lsb_walk (l @ [m]) (m - grow n) (grow n)"
      using True by (subst lsb_walk.simps) (simp only: lsb_cond_int if_True)
    ultimately show ?thesis by metis
  next
    case False
    have "lsb_walk l m n = Some l"
      using False by (subst lsb_walk.simps) (simp only: lsb_cond_int if_False)
    then show ?thesis using less.prems False by blast
  qed
qed

lemma grow_iterates: "8 \<le> (grow ^^ k) 8 \<and> (grow ^^ k) 8 \<le> 1024"
proof (induction k)
  case 0
  show ?case by simp
next
  case (Suc k)
  then show ?case using grow_bounds [of "(grow ^^ k) 8"] by simp
qed

lemma usb_walk_returns: "\<exists>r. usb_walk u m 8 N = Some r"
  using usb_walk_rule [of "\<lambda>_ _ _. True" u m 8 N] by auto

lemma lsb_walk_returns: "\<exists>r. lsb_walk l m 8 = Some r"
  using lsb_walk_rule [of "\<lambda>_ _ _. True" l m 8] by auto

lemma sidebands_returns: "sidebands N tbin bin0 \<noteq> None"
proof -
  obtain r where r: "usb_walk (usb1_init tbin bin0) (last (usb1_init tbin bin0) + 8) 8 N = Some r"
    using usb_walk_returns by blast
  obtain r' where r': "lsb_walk (lsb2_init tbin bin0) (last (lsb2_init tbin bin0) - 8) 8 = Some r'"
    using lsb_walk_returns by blast
  show ?thesis
    by (simp add: sidebands_def Let_def r r')
qed

lemma bin_edges_returns: "bin_edges N tbin bin0 \<noteq> None"
  using sidebands_returns [of N tbin bin0]
  by (auto simp: bin_edges_def split: option.splits sum.splits)

subsection \<open>The edges of the two sidebands\<close>

lemma diffs_snoc: "u \<noteq> [] \<Longrightarrow> diffs (u @ [m]) = diffs u @ [m - last u]"
  by (induction u rule: diffs.induct) auto

lemma length_diffs: "length (diffs u) = length u - 1"
  by (induction u rule: diffs.induct) auto

lemma diffs_nth: "i + 1 < length u \<Longrightarrow> diffs u ! i = u ! (i + 1) - u ! i"
proof (induction u arbitrary: i rule: diffs.induct)
  case (1 a b r)
  then show ?case by (cases i) auto
qed auto

lemma ramp_Suc: "ramp a s (Suc n) = ramp a s n @ [a + int n * s]"
  by (simp add: ramp_def)

lemma ramp_last: "0 < n \<Longrightarrow> last (ramp a s n) = a + int (n - 1) * s"
  by (cases n) (simp_all add: ramp_Suc)

lemma ramp_hd: "0 < n \<Longrightarrow> hd (ramp a s n) = a"
  by (simp add: ramp_def hd_map hd_upt)

lemma ramp_empty: "(ramp a s n = []) = (n = 0)"
  by (simp add: ramp_def)

lemma diffs_ramp: "diffs (ramp a s n) = replicate (n - 1) s"
proof (induction n)
  case 0
  show ?case by (simp add: ramp_def)
next
  case (Suc n)
  show ?case
  proof (cases n)
    case 0
    then show ?thesis by (simp add: ramp_def)
  next
    case (Suc k)
    then have ne: "ramp a s n \<noteq> []" by (simp add: ramp_empty)
    have "diffs (ramp a s (Suc n)) = diffs (ramp a s n) @ [a + int n * s - last (ramp a s n)]"
      by (simp only: ramp_Suc diffs_snoc [OF ne])
    also have "\<dots> = replicate (n - 1) s @ [s]"
      using Suc.IH Suc by (simp add: ramp_last algebra_simps)
    finally show ?thesis using Suc by (simp add: replicate_append_same)
  qed
qed

lemma arange_ramp: "arange a b s = ramp a s (nat (- ((a - b) div s)))"
  by (simp add: arange_def ramp_def)

text \<open>The upper edges before the loop.\<close>

lemma usb1_init_eq:
  assumes "bin0 < tbin"
  shows "usb1_init tbin bin0 =
           ramp (bin1_of tbin bin0) 8 (Suc (nat ((tbin - bin0) div 8)))
           @ (if 3 \<le> (tbin - bin0) mod 8 then [tbin + 3] else [])"
proof -
  define d where "d = tbin - bin0"
  have d: "0 < d" "tbin = bin0 + d" using assms by (simp_all add: d_def)
  have m: "0 \<le> d mod 8" "d mod 8 < 8" by simp_all
  have q: "0 \<le> d div 8" using d by (simp add: pos_imp_zdiv_nonneg_iff)
  have "(d mod 8 + bin0 - (tbin + 1)) div 8 = - (d div 8) - 1"
  proof -
    have "d mod 8 + bin0 - (tbin + 1) = - 1 + (- (d div 8)) * 8"
      using d(2) by (simp add: algebra_simps)
    then show ?thesis by simp
  qed
  then have 1: "nat (- ((d mod 8 + bin0 - (tbin + 1)) div 8)) = Suc (nat (d div 8))"
    using q by simp
  have 2: "nat (- ((tbin + 3 - (tbin + (d mod 8 + bin0 - bin0) + 1)) div 8))
            = (if 3 \<le> d mod 8 then 1 else 0)"
    using m by (auto simp: div_pos_neg_trivial div_pos_pos_trivial)
  show ?thesis
    unfolding usb1_init_def bin1_of_def Let_def arange_ramp d_def [symmetric]
    by (simp only: 1 2) (simp add: ramp_def)
qed


lemma lsb2_init_eq:
  "lsb2_init tbin bin0 =
     map (\<lambda>x. x - 1) (ramp (bin1_of tbin bin0) (- 8)
        (if (tbin - bin0) mod 8 = 0 then 0 else if (tbin - bin0) mod 8 \<le> 4 then 1 else 2))"
proof -
  define b where "b = (tbin - bin0) mod 8"
  have "0 \<le> b" "b < 8" by (simp_all add: b_def)
  then have "b = 0 \<or> b = 1 \<or> b = 2 \<or> b = 3 \<or> b = 4 \<or> b = 5 \<or> b = 6 \<or> b = 7"
    by arith
  then have "nat (- ((b + bin0 - (b + bin0 - 2 * (b + bin0 - bin0) + 1)) div - 8))
             = (if b = 0 then 0 else if b \<le> 4 then 1 else 2)"
    by (elim disjE) simp_all
  then show ?thesis
    unfolding lsb2_init_def bin1_of_def Let_def arange_ramp b_def [symmetric]
    by (simp only:)
qed

lemma sorted_const: "\<forall>d\<in>set xs. d = (c::int) \<Longrightarrow> sorted xs"
  by (induction xs) auto

lemma usb_walk_result:
  assumes u0: "u0 \<noteq> []"
    and d0: "\<forall>d\<in>set (diffs u0). 3 \<le> d \<and> d \<le> 8"
    and s0: "sorted (filter (\<lambda>d. d \<noteq> 3) (diffs u0))"
  shows "\<exists>r. usb_walk u0 (last u0 + 8) 8 N = Some r \<and> r \<noteq> [] \<and> hd r = hd u0
            \<and> (\<forall>d\<in>set (diffs r). 3 \<le> d \<and> d \<le> 1024)
            \<and> sorted (filter (\<lambda>d. d \<noteq> 3) (diffs r))
            \<and> ((last r \<le> int (N div 2)) = (last u0 \<le> int (N div 2)))"
proof -
  define I where "I = (\<lambda>u m n. u \<noteq> [] \<and> hd u = hd u0 \<and> m = last u + n
      \<and> (\<forall>d\<in>set (diffs u). 3 \<le> d \<and> d \<le> n)
      \<and> sorted (filter (\<lambda>d. d \<noteq> 3) (diffs u))
      \<and> last u0 \<le> last u
      \<and> ((last u \<le> int (N div 2)) = (last u0 \<le> int (N div 2))))"
  have init: "I u0 (last u0 + 8) 8"
    using u0 d0 s0 by (simp add: I_def)
  have step: "I (u @ [m]) (m + grow n) (grow n)"
    if "I u m n" "8 \<le> n" "n \<le> 1024" "2 * m + n < int N" for u m n
  proof -
    have g: "n \<le> grow n" using grow_bounds that by blast
    have u: "u \<noteq> []" "hd u = hd u0" "m = last u + n"
      "\<forall>d\<in>set (diffs u). 3 \<le> d \<and> d \<le> n"
      "sorted (filter (\<lambda>d. d \<noteq> 3) (diffs u))" "last u0 \<le> last u"
      using that(1) by (simp_all add: I_def)
    have ds: "diffs (u @ [m]) = diffs u @ [n]"
      using u(1,3) by (simp add: diffs_snoc)
    have "\<forall>d\<in>set (diffs (u @ [m])). 3 \<le> d \<and> d \<le> grow n"
      using u(4) g that(2) by (auto simp: ds)
    moreover have "sorted (filter (\<lambda>d. d \<noteq> 3) (diffs (u @ [m])))"
      using u(4,5) that(2) by (auto simp: ds sorted_append)
    moreover have "m \<le> int (N div 2)" using that(2,4) by linarith
    moreover have "last u0 \<le> m" using u(3,6) that(2) by linarith
    ultimately show ?thesis
      using u(1,2) by (simp add: I_def)
  qed
  obtain r m' n' where r: "usb_walk u0 (last u0 + 8) 8 N = Some r" "I r m' n'" "n' \<le> 1024"
    using usb_walk_rule [of I u0 "last u0 + 8" 8 N, OF init _ _ step] by auto
  have "\<forall>d\<in>set (diffs r). 3 \<le> d \<and> d \<le> 1024"
    using r(2,3) by (auto simp: I_def)
  then show ?thesis using r(1,2) by (auto simp: I_def)
qed

lemma lsb_walk_result:
  assumes l0: "l0 \<noteq> []"
    and d0: "\<forall>d\<in>set (diffs (map uminus l0)). d = 8"
  shows "\<exists>r. lsb_walk l0 (last l0 - 8) 8 = Some r \<and> r \<noteq> [] \<and> hd r = hd l0
            \<and> (\<forall>d\<in>set (diffs (map uminus r)). 8 \<le> d \<and> d \<le> 1024)
            \<and> sorted (diffs (map uminus r))
            \<and> ((1 \<le> last r) = (1 \<le> last l0))"
proof -
  define I where "I = (\<lambda>l m n. l \<noteq> [] \<and> hd l = hd l0 \<and> m = last l - n
      \<and> (\<forall>d\<in>set (diffs (map uminus l)). 8 \<le> d \<and> d \<le> n)
      \<and> sorted (diffs (map uminus l))
      \<and> last l \<le> last l0
      \<and> ((1 \<le> last l) = (1 \<le> last l0)))"
  have "sorted (diffs (map uminus l0))"
    using d0 by (rule sorted_const)
  then have init: "I l0 (last l0 - 8) 8"
    using l0 d0 by (simp add: I_def)
  have step: "I (l @ [m]) (m - grow n) (grow n)"
    if "I l m n" "8 \<le> n" "n \<le> 1024" "2 < 2 * m - n" for l m n
  proof -
    have g: "n \<le> grow n" using grow_bounds that by blast
    have u: "l \<noteq> []" "hd l = hd l0" "m = last l - n"
      "\<forall>d\<in>set (diffs (map uminus l)). 8 \<le> d \<and> d \<le> n"
      "sorted (diffs (map uminus l))" "last l \<le> last l0"
      using that(1) by (simp_all add: I_def)
    have ds: "diffs (map uminus l @ [- m]) = diffs (map uminus l) @ [n]"
      using u(1,3) diffs_snoc [of "map uminus l" "- m"] by (simp add: last_map)
    have "\<forall>d\<in>set (diffs (map uminus (l @ [m]))). 8 \<le> d \<and> d \<le> grow n"
      using u(4) g that(2) by (auto simp: ds)
    moreover have "sorted (diffs (map uminus (l @ [m])))"
      using u(4,5) by (auto simp: ds sorted_append)
    moreover have "1 \<le> m" using that(2,4) by linarith
    moreover have "m \<le> last l0" using u(3,6) that(2) by linarith
    ultimately show ?thesis
      using u(1,2) by (simp add: I_def)
  qed
  obtain r m' n' where r: "lsb_walk l0 (last l0 - 8) 8 = Some r" "I r m' n'" "n' \<le> 1024"
    using lsb_walk_rule [of I l0 "last l0 - 8" 8, OF init _ _ step] by auto
  have "\<forall>d\<in>set (diffs (map uminus r)). 8 \<le> d \<and> d \<le> 1024"
    using r(2,3) by (auto simp: I_def)
  then show ?thesis using r(1,2) by (auto simp: I_def)
qed


lemma usb1_init_props:
  assumes "bin0 < tbin"
  shows "usb1_init tbin bin0 \<noteq> []" "hd (usb1_init tbin bin0) = bin1_of tbin bin0"
    "\<forall>d\<in>set (diffs (usb1_init tbin bin0)). 3 \<le> d \<and> d \<le> 8"
    "sorted (filter (\<lambda>d. d \<noteq> 3) (diffs (usb1_init tbin bin0)))"
proof -
  define k where "k = nat ((tbin - bin0) div 8)"
  define R where "R = ramp (bin1_of tbin bin0) 8 (Suc k)"
  have eq: "usb1_init tbin bin0 = R @ (if 3 \<le> (tbin - bin0) mod 8 then [tbin + 3] else [])"
    using usb1_init_eq [OF assms] by (simp add: R_def k_def)
  have R: "R \<noteq> []" "hd R = bin1_of tbin bin0" "diffs R = replicate k 8"
    by (simp_all add: R_def ramp_empty ramp_hd diffs_ramp)
  have "0 \<le> (tbin - bin0) div 8"
    using assms by (simp add: pos_imp_zdiv_nonneg_iff)
  then have "int k * 8 = (tbin - bin0) div 8 * 8" by (simp add: k_def)
  then have lastR: "last R = tbin"
    by (simp add: R_def ramp_last bin1_of_def algebra_simps)
  have ds: "diffs (usb1_init tbin bin0)
              = replicate k 8 @ (if 3 \<le> (tbin - bin0) mod 8 then [3] else [])"
    using R lastR by (simp add: eq diffs_snoc)
  show "usb1_init tbin bin0 \<noteq> []" using R(1) by (simp add: eq)
  show "hd (usb1_init tbin bin0) = bin1_of tbin bin0" using R(1,2) by (simp add: eq)
  show "\<forall>d\<in>set (diffs (usb1_init tbin bin0)). 3 \<le> d \<and> d \<le> 8"
    by (auto simp: ds)
  show "sorted (filter (\<lambda>d. d \<noteq> 3) (diffs (usb1_init tbin bin0)))"
    by (auto simp: ds intro: sorted_const [of _ 8])
qed

lemma lsb2_init_empty: "(lsb2_init tbin bin0 = []) = ((tbin - bin0) mod 8 = 0)"
  by (simp add: lsb2_init_eq ramp_empty)

lemma lsb2_init_props:
  assumes "(tbin - bin0) mod 8 \<noteq> 0"
  shows "hd (lsb2_init tbin bin0) = bin1_of tbin bin0 - 1"
    "\<forall>d\<in>set (diffs (map uminus (lsb2_init tbin bin0))). d = 8"
proof -
  define c :: nat where "c = (if (tbin - bin0) mod 8 \<le> 4 then 1 else 2)"
  have eq: "lsb2_init tbin bin0 = map (\<lambda>x. x - 1) (ramp (bin1_of tbin bin0) (- 8) c)"
    using assms by (simp add: lsb2_init_eq c_def)
  have c: "0 < c" by (simp add: c_def)
  have "map uminus (lsb2_init tbin bin0) = ramp (1 - bin1_of tbin bin0) 8 c"
    by (simp add: eq ramp_def)
  then show "\<forall>d\<in>set (diffs (map uminus (lsb2_init tbin bin0))). d = 8"
    by (simp add: diffs_ramp)
  show "hd (lsb2_init tbin bin0) = bin1_of tbin bin0 - 1"
    using c by (simp add: eq hd_map ramp_empty ramp_hd)
qed

text \<open>The last of the edges laid down before each loop.\<close>

lemma usb1_init_last:
  assumes "bin0 < tbin"
  shows "last (usb1_init tbin bin0) = (if 3 \<le> (tbin - bin0) mod 8 then tbin + 3 else tbin)"
proof -
  define k where "k = nat ((tbin - bin0) div 8)"
  have "0 \<le> (tbin - bin0) div 8"
    using assms by (simp add: pos_imp_zdiv_nonneg_iff)
  then have "int k * 8 = (tbin - bin0) div 8 * 8" by (simp add: k_def)
  then have "last (ramp (bin1_of tbin bin0) 8 (Suc k)) = tbin"
    by (simp add: ramp_last bin1_of_def algebra_simps)
  then show ?thesis
    using usb1_init_eq [OF assms] by (simp add: k_def ramp_empty)
qed

lemma lsb2_init_last:
  assumes "(tbin - bin0) mod 8 \<noteq> 0"
  shows "last (lsb2_init tbin bin0)
           = bin1_of tbin bin0 - (if (tbin - bin0) mod 8 \<le> 4 then 1 else 9)"
  using assms by (simp add: lsb2_init_eq last_map ramp_empty ramp_last)

lemma sidebands_precondition:
  "\<not> bin0 < tbin \<Longrightarrow> sidebands N tbin bin0 = Some (Inl PreconditionViolation)"
  by (simp add: sidebands_def)

lemma sidebands_index_error:
  assumes "bin0 < tbin" "(tbin - bin0) mod 8 = 0"
  shows "sidebands N tbin bin0 = Some (Inl IndexError)"
proof -
  obtain r where "usb_walk (usb1_init tbin bin0) (last (usb1_init tbin bin0) + 8) 8 N = Some r"
    using usb_walk_returns by blast
  then show ?thesis
    using assms lsb2_init_empty [of tbin bin0] by (simp add: sidebands_def Let_def)
qed

lemma sidebands_result:
  assumes "bin0 < tbin" "(tbin - bin0) mod 8 \<noteq> 0"
  shows "\<exists>lsb2 usb1.
           sidebands N tbin bin0
             = Some (Inr (map (\<lambda>x. x + 1) (tl lsb2) @ [1], lsb2, usb1,
                          map (\<lambda>x. x - 1) (tl usb1) @ [int (N div 2)]))
           \<and> usb1 \<noteq> [] \<and> hd usb1 = bin1_of tbin bin0
           \<and> (\<forall>d\<in>set (diffs usb1). 3 \<le> d \<and> d \<le> 1024)
           \<and> sorted (filter (\<lambda>d. d \<noteq> 3) (diffs usb1))
           \<and> ((last usb1 \<le> int (N div 2)) = (last (usb1_init tbin bin0) \<le> int (N div 2)))
           \<and> lsb2 \<noteq> [] \<and> hd lsb2 = bin1_of tbin bin0 - 1
           \<and> (\<forall>d\<in>set (diffs (map uminus lsb2)). 8 \<le> d \<and> d \<le> 1024)
           \<and> sorted (diffs (map uminus lsb2))
           \<and> ((1 \<le> last lsb2) = (1 \<le> last (lsb2_init tbin bin0)))"
proof -
  have l0: "lsb2_init tbin bin0 \<noteq> []"
    using assms(2) by (simp add: lsb2_init_empty)
  obtain u where u: "usb_walk (usb1_init tbin bin0) (last (usb1_init tbin bin0) + 8) 8 N = Some u"
    "u \<noteq> []" "hd u = bin1_of tbin bin0"
    "\<forall>d\<in>set (diffs u). 3 \<le> d \<and> d \<le> 1024"
    "sorted (filter (\<lambda>d. d \<noteq> 3) (diffs u))"
    "(last u \<le> int (N div 2)) = (last (usb1_init tbin bin0) \<le> int (N div 2))"
    using usb_walk_result [OF usb1_init_props(1,3,4) [OF assms(1)], of N]
      usb1_init_props(2) [OF assms(1)] by auto
  obtain l where l: "lsb_walk (lsb2_init tbin bin0) (last (lsb2_init tbin bin0) - 8) 8 = Some l"
    "l \<noteq> []" "hd l = bin1_of tbin bin0 - 1"
    "\<forall>d\<in>set (diffs (map uminus l)). 8 \<le> d \<and> d \<le> 1024"
    "sorted (diffs (map uminus l))"
    "(1 \<le> last l) = (1 \<le> last (lsb2_init tbin bin0))"
    using lsb_walk_result [OF l0 lsb2_init_props(2) [OF assms(2)]]
      lsb2_init_props(1) [OF assms(2)] by auto
  have "sidebands N tbin bin0
          = Some (Inr (map (\<lambda>x. x + 1) (tl l) @ [1], l, u,
                       map (\<lambda>x. x - 1) (tl u) @ [int (N div 2)]))"
    using assms(1) l0 usb1_init_props(1) [OF assms(1)] u(1) l(1)
    by (simp add: sidebands_def Let_def)
  then show ?thesis
    using u(2-6) l(2-6) by blast
qed


lemma grow_int: "0 \<le> n \<Longrightarrow> grow n = (if 10240 \<le> n * 11 then 1024 else (n * 11 + 5) div 10)"
proof -
  assume n: "0 \<le> n"
  have "\<lfloor>real_of_int n * 11 / 10 + 1 / 2\<rfloor> = (n * 11 + 5) div 10"
  proof -
    have "real_of_int n * 11 / 10 + 1 / 2 = real_of_int (n * 11 + 5) / real_of_int 10"
      by simp
    then show ?thesis
      by (simp only: floor_divide_of_int_eq)
  qed
  moreover have "(real_of_int n * 11 / 10 \<le> 1024) = (n * 11 \<le> 10240)"
    by (auto simp: field_simps)
  ultimately show ?thesis
    using n unfolding grow_def mround_def by (auto simp: min_def)
qed

lemma usb_walk_int:
  "usb_walk u m n N = (if 2 * m + n < int N then usb_walk (u @ [m]) (m + grow n) (grow n) N else Some u)"
  by (subst usb_walk.simps) (simp only: usb_cond_int)

lemma lsb_walk_int:
  "lsb_walk l m n = (if 2 < 2 * m - n then lsb_walk (l @ [m]) (m - grow n) (grow n) else Some l)"
  by (subst lsb_walk.simps) (simp only: lsb_cond_int)

lemmas eval_simps =
  sidebands_def usb1_init_def lsb2_init_def bin1_of_def arange_def usb_walk_int lsb_walk_int
  grow_int upt_conv_Cons

lemma sidebands_Inr:
  assumes "sidebands N tbin bin0 = Some (Inr e)"
  shows "bin0 < tbin \<and> (tbin - bin0) mod 8 \<noteq> 0"
  using assms sidebands_precondition [of bin0 tbin N] sidebands_index_error [of bin0 tbin N]
  by fastforce

lemma widths_upper:
  "u \<noteq> [] \<Longrightarrow> widths u (map (\<lambda>x. x - 1) (tl u) @ [c]) = diffs u @ [c - last u + 1]"
  by (induction u rule: diffs.induct) (simp_all add: widths_def)

lemma widths_lower:
  "l \<noteq> [] \<Longrightarrow> widths (map (\<lambda>x. x + 1) (tl l) @ [1]) l = diffs (map uminus l) @ [last l]"
  by (induction l rule: diffs.induct) (simp_all add: widths_def)

subsection \<open>The bins as one list of edges\<close>

lemma diffs_shift: "diffs (map (\<lambda>x. x - c) xs) = diffs xs"
  by (induction xs rule: diffs.induct) simp_all

lemma diffs_Cons: "xs \<noteq> [] \<Longrightarrow> diffs (a # xs) = (hd xs - a) # diffs xs"
  by (cases xs) simp_all

lemma diffs_append:
  "xs \<noteq> [] \<Longrightarrow> ys \<noteq> [] \<Longrightarrow> diffs (xs @ ys) = diffs xs @ (hd ys - last xs) # diffs ys"
proof (induction xs)
  case Nil
  then show ?case by simp
next
  case (Cons a xs)
  show ?case
  proof (cases xs)
    case Nil
    then show ?thesis using Cons.prems by (simp add: diffs_Cons)
  next
    case (Cons b r)
    then show ?thesis using Cons.IH Cons.prems by simp
  qed
qed

lemma diffs_rev: "diffs (rev xs) = rev (diffs (map uminus xs))"
proof (induction xs)
  case Nil
  show ?case by simp
next
  case (Cons a xs)
  show ?case
  proof (cases xs)
    case Nil
    then show ?thesis by simp
  next
    case (Cons b r)
    then have "rev xs \<noteq> []" by simp
    then have "diffs (rev xs @ [a]) = diffs (rev xs) @ [a - last (rev xs)]"
      by (rule diffs_snoc)
    then show ?thesis using Cons.IH Cons by simp
  qed
qed

lemma diffs_positive_sorted:
  "(\<forall>d\<in>set (diffs xs). 1 \<le> d) = sorted_wrt (<) xs"
proof (induction xs rule: diffs.induct)
  case (1 a b r)
  have "sorted_wrt (<) (b # r) \<Longrightarrow> a < b \<Longrightarrow> \<forall>x\<in>set r. a < x"
    by auto
  then show ?case using 1 by auto
qed simp_all

text \<open>The bins in terms of the edges of the sidebands.\<close>

lemma edges_startbin:
  assumes "l \<noteq> []" "u \<noteq> []" "hd l = hd u - 1"
  shows "startbin_of (map (\<lambda>x. x + 1) (tl l) @ [1], l, u, usb2)
           = 0 # rev l @ map (\<lambda>x. x - 1) (tl u)"
proof -
  obtain a l' where l: "l = a # l'" using assms(1) by (cases l) auto
  obtain b u' where u: "u = b # u'" using assms(2) by (cases u) auto
  show ?thesis using assms(3) by (simp add: startbin_of_def l u rev_map comp_def)
qed

lemma edges_stopbin:
  "stopbin_of (lsb1, l, u, map (\<lambda>x. x - 1) (tl u) @ [c])
           = map (\<lambda>x. x - 1) (rev l @ map (\<lambda>x. x - 1) (tl u)) @ [c - 1]"
  by (simp add: stopbin_of_def)

lemma edges_diffs:
  assumes "l \<noteq> []" "u \<noteq> []" "hd l = hd u - 1"
  shows "diffs (0 # rev l @ map (\<lambda>x. x - 1) (tl u))
           = last l # rev (diffs (map uminus l)) @ diffs u"
proof -
  obtain b u' where u: "u = b # u'" using assms(2) by (cases u) auto
  have 1: "diffs (rev l @ map (\<lambda>x. x - 1) u') = rev (diffs (map uminus l)) @ diffs u"
  proof (cases u')
    case Nil
    then show ?thesis by (simp add: u diffs_rev)
  next
    case (Cons c r)
    have "diffs (rev l @ map (\<lambda>x. x - 1) u')
            = diffs (rev l) @ (hd (map (\<lambda>x. x - 1) u') - last (rev l)) # diffs (map (\<lambda>x. x - 1) u')"
      using assms(1) Cons by (intro diffs_append) simp_all
    then show ?thesis
      using assms(1,3) Cons by (simp add: u diffs_rev diffs_shift last_rev del: diffs.simps(1))
        (simp add: diffs_shift [of 1 "c # r", simplified])
  qed
  have "diffs (0 # rev l @ map (\<lambda>x. x - 1) (tl u))
          = (hd (rev l @ map (\<lambda>x. x - 1) (tl u)) - 0) # diffs (rev l @ map (\<lambda>x. x - 1) (tl u))"
    using assms(1) by (intro diffs_Cons) simp
  then show ?thesis
    using assms(1) 1 by (simp add: u hd_rev)
qed

lemma bin_edges_result:
  assumes "bin_edges N tbin bin0 = Some (Inr (startbin, stopbin))"
  shows "\<exists>l u. sidebands N tbin bin0
                  = Some (Inr (map (\<lambda>x. x + 1) (tl l) @ [1], l, u,
                               map (\<lambda>x. x - 1) (tl u) @ [int (N div 2)]))
           \<and> l \<noteq> [] \<and> u \<noteq> [] \<and> hd l + 1 = hd u
           \<and> startbin = 0 # rev l @ map (\<lambda>x. x - 1) (tl u)
           \<and> stopbin = map (\<lambda>x. x - 1) (tl startbin) @ [int (N div 2) - 1]
           \<and> diffs startbin = last l # rev (diffs (map uminus l)) @ diffs u
           \<and> last startbin = last u - 1
           \<and> (\<forall>d\<in>set (diffs u). 3 \<le> d \<and> d \<le> 1024)
           \<and> (\<forall>d\<in>set (diffs (map uminus l)). 8 \<le> d \<and> d \<le> 1024)
           \<and> ((last u \<le> int (N div 2)) = (last (usb1_init tbin bin0) \<le> int (N div 2)))
           \<and> ((1 \<le> last l) = (1 \<le> last (lsb2_init tbin bin0)))"
proof -
  obtain e where e: "sidebands N tbin bin0 = Some (Inr e)"
    "startbin = startbin_of e" "stopbin = stopbin_of e"
    using assms by (auto simp: bin_edges_def split: option.splits sum.splits)
  have pre: "bin0 < tbin" "(tbin - bin0) mod 8 \<noteq> 0"
    using sidebands_Inr [OF e(1)] by simp_all
  obtain l u where
    s: "sidebands N tbin bin0
          = Some (Inr (map (\<lambda>x. x + 1) (tl l) @ [1], l, u,
                       map (\<lambda>x. x - 1) (tl u) @ [int (N div 2)]))"
    and u: "u \<noteq> []" "hd u = bin1_of tbin bin0" "\<forall>d\<in>set (diffs u). 3 \<le> d \<and> d \<le> 1024"
      "(last u \<le> int (N div 2)) = (last (usb1_init tbin bin0) \<le> int (N div 2))"
    and l: "l \<noteq> []" "hd l = bin1_of tbin bin0 - 1"
      "\<forall>d\<in>set (diffs (map uminus l)). 8 \<le> d \<and> d \<le> 1024"
      "(1 \<le> last l) = (1 \<le> last (lsb2_init tbin bin0))"
    using sidebands_result [OF pre, of N] by blast
  have hd: "hd l = hd u - 1" using u(2) l(2) by simp
  have ee: "e = (map (\<lambda>x. x + 1) (tl l) @ [1], l, u, map (\<lambda>x. x - 1) (tl u) @ [int (N div 2)])"
    using e(1) s by simp
  have st: "startbin = 0 # rev l @ map (\<lambda>x. x - 1) (tl u)"
    using edges_startbin [OF l(1) u(1) hd] by (simp add: e(2) ee)
  have sp: "stopbin = map (\<lambda>x. x - 1) (tl startbin) @ [int (N div 2) - 1]"
    by (simp add: e(3) ee edges_stopbin st)
  have ds: "diffs startbin = last l # rev (diffs (map uminus l)) @ diffs u"
    using edges_diffs [OF l(1) u(1) hd] by (simp add: st)
  have la: "last startbin = last u - 1"
  proof (cases "tl u")
    case Nil
    then have "u = [hd u]" using u(1) by (cases u) auto
    then have "last u = hd u" by (metis last.simps)
    then show ?thesis using Nil l(1) hd by (simp add: st last_rev)
  next
    case (Cons c r)
    then have "last (tl u) = last u" using u(1) by (cases u) auto
    then show ?thesis using Cons by (auto simp: st last_map split: if_splits)
  qed
  show ?thesis
    using s u(1,3,4) l(1,3,4) hd st sp ds la by (intro exI [of _ l] exI [of _ u]) simp
qed

text \<open>Lists of edges: each bin stops right before the next one starts.\<close>

lemma edges_length: "F \<noteq> [] \<Longrightarrow> length (map (\<lambda>x. x - 1) (tl F) @ [c]) = length F"
  by (cases F) simp_all

lemma edges_chain:
  "i + 1 < length F \<Longrightarrow> (map (\<lambda>x. x - 1) (tl F) @ [c]) ! i + 1 = (F ! (i + 1) :: int)"
  by (cases F) (simp_all add: nth_append)

lemma edges_nonempty:
  "F \<noteq> [] \<Longrightarrow>
     list_all2 (\<le>) F (map (\<lambda>x. x - 1) (tl F) @ [c::int])
       = ((\<forall>d\<in>set (diffs F). 1 \<le> d) \<and> last F \<le> c)"
proof (induction F)
  case Nil
  then show ?case by simp
next
  case (Cons a F)
  show ?case
  proof (cases F)
    case Nil
    then show ?thesis by simp
  next
    case (Cons b r)
    then show ?thesis using Cons.IH by auto
  qed
qed

lemma edges_covered:
  "sorted_wrt (<) (F::int list) \<Longrightarrow> F \<noteq> [] \<Longrightarrow> last F \<le> c \<Longrightarrow>
     covered F (map (\<lambda>x. x - 1) (tl F) @ [c]) = [hd F..c]"
proof (induction F)
  case Nil
  then show ?case by simp
next
  case (Cons a F)
  show ?case
  proof (cases F)
    case Nil
    then show ?thesis by (simp add: covered_def)
  next
    case (Cons b r)
    have ab: "a < b" using Cons.prems(1) Cons by simp
    have "b \<le> last F" using Cons.prems(1) Cons
      by (cases r rule: rev_cases) (auto simp: sorted_wrt_append)
    then have bc: "b \<le> c" using Cons.prems(3) Cons by simp
    have ih: "covered F (map (\<lambda>x. x - 1) (tl F) @ [c]) = [b..c]"
      using Cons.IH Cons.prems Cons by simp
    have "covered (a # F) (map (\<lambda>x. x - 1) (tl (a # F)) @ [c])
            = [a..b - 1] @ covered F (map (\<lambda>x. x - 1) (tl F) @ [c])"
      using Cons by (simp add: covered_def)
    also have "\<dots> = [a..c]"
      using ab bc by (simp only: ih) (rule upto_split1 [symmetric], simp_all)
    finally show ?thesis by simp
  qed
qed

lemma sorted_hd_le: "sorted_wrt (<) (F::int list) \<Longrightarrow> i < length F \<Longrightarrow> hd F \<le> F ! i"
  by (cases F; cases i) (auto simp: less_imp_le)

lemma sorted_le_last: "sorted_wrt (<) (F::int list) \<Longrightarrow> i < length F \<Longrightarrow> F ! i \<le> last F"
proof -
  assume a: "sorted_wrt (<) F" "i < length F"
  then have ne: "F \<noteq> []" by auto
  show ?thesis
  proof (cases "i = length F - 1")
    case True
    then show ?thesis using ne by (simp add: last_conv_nth)
  next
    case False
    then have "i < length F - 1" using a(2) by simp
    then have "F ! i < F ! (length F - 1)"
      using a by (simp add: sorted_wrt_iff_nth_less)
    then show ?thesis using ne by (simp add: last_conv_nth)
  qed
qed

lemma bin_edges_shape:
  assumes "bin_edges N tbin bin0 = Some (Inr (startbin, stopbin))"
  shows "startbin \<noteq> []" "hd startbin = 0"
    "stopbin = map (\<lambda>x. x - 1) (tl startbin) @ [int (N div 2) - 1]"
    "((\<forall>d\<in>set (diffs startbin). 1 \<le> d) \<and> last startbin \<le> int (N div 2) - 1)
       = (last (usb1_init tbin bin0) \<le> int (N div 2) \<and> 1 \<le> last (lsb2_init tbin bin0))"
proof -
  obtain l u where r: "startbin = 0 # rev l @ map (\<lambda>x. x - 1) (tl u)"
    "stopbin = map (\<lambda>x. x - 1) (tl startbin) @ [int (N div 2) - 1]"
    "diffs startbin = last l # rev (diffs (map uminus l)) @ diffs u"
    "last startbin = last u - 1"
    "\<forall>d\<in>set (diffs u). 3 \<le> d \<and> d \<le> 1024"
    "\<forall>d\<in>set (diffs (map uminus l)). 8 \<le> d \<and> d \<le> 1024"
    "(last u \<le> int (N div 2)) = (last (usb1_init tbin bin0) \<le> int (N div 2))"
    "(1 \<le> last l) = (1 \<le> last (lsb2_init tbin bin0))"
    using bin_edges_result [OF assms] by blast
  show "startbin \<noteq> []" "hd startbin = 0" by (simp_all add: r(1))
  show "stopbin = map (\<lambda>x. x - 1) (tl startbin) @ [int (N div 2) - 1]" by (rule r(2))
  have "(\<forall>d\<in>set (diffs startbin). 1 \<le> d) = (1 \<le> last l)"
    using r(5,6) by (fastforce simp: r(3))
  moreover have "(last startbin \<le> int (N div 2) - 1) = (last u \<le> int (N div 2))"
    unfolding r(4) by linarith
  ultimately show "((\<forall>d\<in>set (diffs startbin). 1 \<le> d) \<and> last startbin \<le> int (N div 2) - 1)
       = (last (usb1_init tbin bin0) \<le> int (N div 2) \<and> 1 \<le> last (lsb2_init tbin bin0))"
    using r(7,8) by auto
qed

subsection \<open>Bins that fit into the half spectrum\<close>

lemma edges_sums_increasing:
  assumes "sorted_wrt (<) (F::int list)" "F \<noteq> []" "last F \<le> c"
    and "i < j" "j < length F"
  shows "F ! i + (map (\<lambda>x. x - 1) (tl F) @ [c]) ! i < F ! j + (map (\<lambda>x. x - 1) (tl F) @ [c]) ! j"
proof -
  define E where "E = map (\<lambda>x. x - 1) (tl F) @ [c]"
  have "i + 1 < length F" using assms(4,5) by simp
  then have 1: "E ! i + 1 = F ! (i + 1)" unfolding E_def by (rule edges_chain)
  have 2: "F ! (i + 1) \<le> F ! j"
  proof (cases "i + 1 = j")
    case True
    then show ?thesis by simp
  next
    case False
    then have "i + 1 < j" using assms(4) by simp
    then show ?thesis using assms(1,5) by (simp add: sorted_wrt_iff_nth_less less_imp_le)
  qed
  have "list_all2 (\<le>) F E"
    using edges_nonempty [OF assms(2), of c] assms(1,3)
    by (simp add: E_def diffs_positive_sorted)
  then have 3: "F ! j \<le> E ! j" using assms(5) by (simp add: list_all2_conv_all_nth)
  have 4: "F ! i < F ! j" using assms(1,4,5) by (simp add: sorted_wrt_iff_nth_less)
  show ?thesis using 1 2 3 4 unfolding E_def by linarith
qed

lemma bin_edges_fit:
  assumes "bin_edges N tbin bin0 = Some (Inr (startbin, stopbin))"
    and "last (usb1_init tbin bin0) \<le> int (N div 2)" "1 \<le> last (lsb2_init tbin bin0)"
  shows "sorted_wrt (<) startbin" "last startbin \<le> int (N div 2) - 1" "2 \<le> N"
proof -
  note s = bin_edges_shape [OF assms(1)]
  have "(\<forall>d\<in>set (diffs startbin). 1 \<le> d) \<and> last startbin \<le> int (N div 2) - 1"
    using s(4) assms(2,3) by simp
  then show a: "sorted_wrt (<) startbin" and b: "last startbin \<le> int (N div 2) - 1"
    by (simp_all add: diffs_positive_sorted)
  have "hd startbin \<le> last startbin"
    using sorted_hd_le [OF a, of "length startbin - 1"] s(1) by (simp add: last_conv_nth)
  then have "1 \<le> int (N div 2)" using b s(2) by simp
  then show "2 \<le> N" by linarith
qed

lemma bplogsmooth_Inr:
  assumes "bplogsmooth X tbin f0 = Some (Inr (f, p))"
  shows "\<exists>startbin stopbin.
           bin_edges (length X) tbin (mround (f0 * real (length X))) = Some (Inr (startbin, stopbin))
           \<and> f = freqs (length X) f0 startbin stopbin
           \<and> p = powers X startbin stopbin f"
  using assms
  by (auto simp: bplogsmooth_def fft_length_def Let_def
      split: if_splits option.splits sum.splits)

lemma freqs_ascending_aux:
  assumes "sorted_wrt (<) (F::int list)" "F \<noteq> []" "last F \<le> c" "0 < N"
  shows "strictly_ascending (freqs N f0 F (map (\<lambda>x. x - 1) (tl F) @ [c]))"
proof -
  define E where "E = map (\<lambda>x. x - 1) (tl F) @ [c]"
  define h where "h = (\<lambda>a b. ((real_of_int a + real_of_int b) / 2) / real N - f0)"
  have len: "length E = length F" using assms(2) by (simp add: E_def edges_length)
  have fr: "freqs N f0 F E = map2 (\<lambda>a b. Some (h a b)) F E"
    using assms(4) by (simp add: freqs_def h_def)
  have the: "map the (freqs N f0 F E) = map2 h F E"
    by (simp add: fr comp_def case_prod_beta)
  have "list_all (\<lambda>x. x \<noteq> None) (freqs N f0 F E)"
    by (auto simp: fr list_all_iff)
  moreover have "sorted_wrt (<) (map2 h F E)"
  proof -
    have "h (F ! i) (E ! i) < h (F ! j) (E ! j)" if "i < j" "j < length F" for i j
    proof -
      have "F ! i + E ! i < F ! j + E ! j"
        unfolding E_def using assms(1,2,3) that by (rule edges_sums_increasing)
      then have "real_of_int (F ! i) + real_of_int (E ! i) < real_of_int (F ! j) + real_of_int (E ! j)"
        by (metis of_int_add of_int_less_iff)
      then show ?thesis
        using assms(4) by (simp add: h_def divide_strict_right_mono)
    qed
    then show ?thesis
      using len by (simp add: sorted_wrt_iff_nth_less)
  qed
  ultimately show ?thesis
    by (simp add: strictly_ascending_def the E_def [symmetric])
qed

lemma sorted_wrt_less_Cons2:
  "sorted_wrt (<) (x # y # zs) = ((x::real) < y \<and> sorted_wrt (<) (y # zs))"
  by auto

subsection \<open>Powers and exceptions\<close>

lemma pyslice_upto:
  assumes "0 \<le> a" "a \<le> b" "b < int (length X)"
  shows "pyslice X a (b + 1) = map (\<lambda>k. X ! nat k) [a..b]"
proof -
  have lo: "clip_index (length X) a = nat a"
    using assms by (simp add: clip_index_def)
  have hi: "clip_index (length X) (b + 1) = nat (b + 1)"
    using assms by (simp add: clip_index_def)
  have sl: "pyslice X a (b + 1) = take (nat (b + 1) - nat a) (drop (nat a) X)"
    by (simp add: pyslice_def lo hi Let_def)
  show ?thesis
  proof (rule nth_equalityI)
    show "length (pyslice X a (b + 1)) = length (map (\<lambda>k. X ! nat k) [a..b])"
      using assms by (simp add: sl)
  next
    fix i
    assume "i < length (pyslice X a (b + 1))"
    then have i: "i < nat (b + 1) - nat a" by (simp add: sl)
    then have "int i \<le> b - a" using assms by linarith
    then have "[a..b] ! i = a + int i" by (simp add: nth_upto)
    moreover have "nat a + i = nat (a + int i)" using assms by linarith
    ultimately show "pyslice X a (b + 1) ! i = map (\<lambda>k. X ! nat k) [a..b] ! i"
      using i assms by (simp add: sl)
  qed
qed

lemma norm1_mean:
  assumes "0 < w"
  shows "norm1 (map (\<lambda>x. x ^ 2 / of_int w) xs) = (\<Sum>x\<leftarrow>xs. (cmod x)\<^sup>2) / real_of_int w"
  using assms
  by (induction xs) (simp_all add: norm1_def norm_divide norm_power add_divide_distrib)

lemma bin_power_mean:
  assumes "0 \<le> a" "a \<le> b" "b < int (length X)"
  shows "bin_power X a b = mean_sq X a b"
proof -
  have w: "0 < b - a + 1" using assms by simp
  have "bin_power X a b
          = norm1 (map (\<lambda>x. x ^ 2 / of_int (b - a + 1)) (map (\<lambda>k. X ! nat k) [a..b]))"
    by (simp only: bin_power_def pyslice_upto [OF assms])
  also have "\<dots> = (\<Sum>x\<leftarrow>map (\<lambda>k. X ! nat k) [a..b]. (cmod x)\<^sup>2) / real_of_int (b - a + 1)"
    using w by (rule norm1_mean)
  also have "\<dots> = mean_sq X a b"
    by (simp only: mean_sq_def map_map comp_def)
  finally show ?thesis .
qed

lemma norm1_replicate: "norm1 (replicate n x) = real n * cmod x"
  by (induction n) (simp_all add: norm1_def algebra_simps)

lemma bin_edges_precondition:
  "(bin_edges N tbin bin0 = Some (Inl PreconditionViolation)) = (tbin \<le> bin0)"
proof (cases "bin0 < tbin")
  case False
  then show ?thesis
    using sidebands_precondition [of bin0 tbin N] by (simp add: bin_edges_def)
next
  case True
  show ?thesis
  proof (cases "(tbin - bin0) mod 8 = 0")
    case True
    then show ?thesis
      using \<open>bin0 < tbin\<close> sidebands_index_error [of bin0 tbin N] by (simp add: bin_edges_def)
  next
    case False
    then obtain e where "sidebands N tbin bin0 = Some (Inr e)"
      using \<open>bin0 < tbin\<close> sidebands_result [of bin0 tbin N] by blast
    then show ?thesis
      using \<open>bin0 < tbin\<close> by (simp add: bin_edges_def)
  qed
qed

lemma bin_edges_index_error:
  "(bin_edges N tbin bin0 = Some (Inl IndexError)) = (bin0 < tbin \<and> (tbin - bin0) mod 8 = 0)"
proof (cases "bin0 < tbin")
  case False
  then show ?thesis
    using sidebands_precondition [of bin0 tbin N] by (simp add: bin_edges_def)
next
  case True
  show ?thesis
  proof (cases "(tbin - bin0) mod 8 = 0")
    case True
    then show ?thesis
      using \<open>bin0 < tbin\<close> sidebands_index_error [of bin0 tbin N] by (simp add: bin_edges_def)
  next
    case False
    then obtain e where "sidebands N tbin bin0 = Some (Inr e)"
      using \<open>bin0 < tbin\<close> sidebands_result [of bin0 tbin N] by blast
    then show ?thesis
      using False by (simp add: bin_edges_def)
  qed
qed

lemma bplogsmooth_Inl:
  "(bplogsmooth X tbin f0 = Some (Inl e))
     = (if length X = 1 then e = IndexError
        else bin_edges (length X) tbin (mround (f0 * real (length X))) = Some (Inl e))"
  by (auto simp: bplogsmooth_def fft_length_def Let_def split: option.splits sum.splits)

lemma bplogsmooth_raises:
  "(bplogsmooth X tbin f0 = Some (Inl PreconditionViolation))
     = (length X \<noteq> 1 \<and> tbin \<le> mround (f0 * real (length X)))"
  "(bplogsmooth X tbin f0 = Some (Inl IndexError))
     = (length X = 1
        \<or> mround (f0 * real (length X)) < tbin
          \<and> (tbin - mround (f0 * real (length X))) mod 8 = 0)"
  by (simp_all add: bplogsmooth_Inl bin_edges_precondition bin_edges_index_error)

subsection \<open>The outermost bins and the bin that starts at the test bin\<close>

lemma sidebands_walks:
  assumes "sidebands N tbin bin0 = Some (Inr (lsb1, lsb2, usb1, usb2))"
  shows "usb_walk (usb1_init tbin bin0) (last (usb1_init tbin bin0) + 8) 8 N = Some usb1"
    "lsb_walk (lsb2_init tbin bin0) (last (lsb2_init tbin bin0) - 8) 8 = Some lsb2"
  using assms
  by (auto simp: sidebands_def Let_def split: if_splits option.splits)

lemma usb_walk_last:
  assumes "u0 \<noteq> []"
  shows "\<exists>r. usb_walk u0 (last u0 + 8) 8 N = Some r \<and> int N \<le> 2 * last r + 3072"
proof -
  define I where "I = (\<lambda>u m (n::int). u \<noteq> [] \<and> m = last u + n)"
  have init: "I u0 (last u0 + 8) 8" using assms by (simp add: I_def)
  have step: "I (u @ [m]) (m + grow n) (grow n)"
    if "I u m n" "8 \<le> n" "n \<le> 1024" "2 * m + n < int N" for u m n
    by (simp add: I_def)
  obtain r m' n' where r: "usb_walk u0 (last u0 + 8) 8 N = Some r" "I r m' n'" "n' \<le> 1024"
    "\<not> 2 * m' + n' < int N"
    using usb_walk_rule [of I u0 "last u0 + 8" 8 N, OF init _ _ step] by auto
  have "m' = last r + n'" using r(2) by (simp add: I_def)
  then have "int N \<le> 2 * last r + 3072" using r(3,4) by linarith
  then show ?thesis using r(1) by blast
qed

lemma lsb_walk_last:
  assumes "l0 \<noteq> []"
  shows "\<exists>r. lsb_walk l0 (last l0 - 8) 8 = Some r \<and> last r \<le> 1537"
proof -
  define I where "I = (\<lambda>l m (n::int). l \<noteq> [] \<and> m = last l - n)"
  have init: "I l0 (last l0 - 8) 8" using assms by (simp add: I_def)
  have step: "I (l @ [m]) (m - grow n) (grow n)"
    if "I l m n" "8 \<le> n" "n \<le> 1024" "2 < 2 * m - n" for l m n
    by (simp add: I_def)
  obtain r m' n' where r: "lsb_walk l0 (last l0 - 8) 8 = Some r" "I r m' n'" "n' \<le> 1024"
    "\<not> 2 < 2 * m' - n'"
    using lsb_walk_rule [of I l0 "last l0 - 8" 8, OF init _ _ step] by auto
  have "m' = last r - n'" using r(2) by (simp add: I_def)
  then have "last r \<le> 1537" using r(3,4) by linarith
  then show ?thesis using r(1) by blast
qed

lemma usb_walk_three:
  assumes "u0 \<noteq> []"
    and "\<forall>i. i + 1 < length u0 \<longrightarrow> u0 ! (i + 1) - u0 ! i = 3 \<longrightarrow> u0 ! i = t"
  shows "\<exists>r. usb_walk u0 (last u0 + 8) 8 N = Some r
            \<and> (\<forall>i. i + 1 < length r \<longrightarrow> r ! (i + 1) - r ! i = 3 \<longrightarrow> r ! i = t)"
proof -
  define I where "I = (\<lambda>u m (n::int). u \<noteq> [] \<and> m = last u + n
      \<and> (\<forall>i. i + 1 < length u \<longrightarrow> u ! (i + 1) - u ! i = 3 \<longrightarrow> u ! i = t))"
  have init: "I u0 (last u0 + 8) 8" using assms by (simp add: I_def)
  have step: "I (u @ [m]) (m + grow n) (grow n)"
    if "I u m n" "8 \<le> n" "n \<le> 1024" "2 * m + n < int N" for u m n
  proof -
    have u: "u \<noteq> []" "m = last u + n"
      "\<forall>i. i + 1 < length u \<longrightarrow> u ! (i + 1) - u ! i = 3 \<longrightarrow> u ! i = t"
      using that(1) by (simp_all add: I_def)
    have "(u @ [m]) ! i = t"
      if i: "i + 1 < length (u @ [m])" "(u @ [m]) ! (i + 1) - (u @ [m]) ! i = 3" for i
    proof (cases "i + 1 < length u")
      case True
      then show ?thesis using u(3) i(2) by (simp add: nth_append)
    next
      case False
      then have "i = length u - 1" "i < length u" using i(1) u(1) by auto
      then have "(u @ [m]) ! (i + 1) - (u @ [m]) ! i = m - last u"
        using u(1) by (simp add: nth_append last_conv_nth)
      then show ?thesis using i(2) u(2) \<open>8 \<le> n\<close> by simp
    qed
    then show ?thesis using u(1,2) by (simp add: I_def)
  qed
  obtain r m' n' where r: "usb_walk u0 (last u0 + 8) 8 N = Some r" "I r m' n'"
    using usb_walk_rule [of I u0 "last u0 + 8" 8 N, OF init _ _ step] by auto
  then show ?thesis by (auto simp: I_def)
qed

lemma usb1_init_three:
  assumes "bin0 < tbin"
  shows "\<forall>i. i + 1 < length (usb1_init tbin bin0)
           \<longrightarrow> usb1_init tbin bin0 ! (i + 1) - usb1_init tbin bin0 ! i = 3
           \<longrightarrow> usb1_init tbin bin0 ! i = tbin"
proof (intro allI impI)
  fix i
  define k where "k = nat ((tbin - bin0) div 8)"
  define R where "R = ramp (bin1_of tbin bin0) 8 (Suc k)"
  define T where "T = (if 3 \<le> (tbin - bin0) mod 8 then [tbin + 3] else [])"
  assume i: "i + 1 < length (usb1_init tbin bin0)"
    and d: "usb1_init tbin bin0 ! (i + 1) - usb1_init tbin bin0 ! i = 3"
  have eq: "usb1_init tbin bin0 = R @ T"
    using usb1_init_eq [OF assms] by (simp add: R_def k_def T_def)
  have lenR: "length R = Suc k" by (simp add: R_def ramp_def)
  have "0 \<le> (tbin - bin0) div 8"
    using assms by (simp add: pos_imp_zdiv_nonneg_iff)
  then have "int k * 8 = (tbin - bin0) div 8 * 8" by (simp add: k_def)
  then have lastR: "R ! k = tbin"
    by (simp add: R_def ramp_def bin1_of_def algebra_simps del: upt_Suc)
  show "usb1_init tbin bin0 ! i = tbin"
  proof (cases "i + 1 < length R")
    case True
    then have "diffs R ! i = R ! (i + 1) - R ! i" by (rule diffs_nth)
    moreover have "diffs R ! i = 8"
      using True by (simp add: diffs_ramp lenR R_def [symmetric]) (simp add: R_def diffs_ramp)
    ultimately show ?thesis using d True by (simp add: eq nth_append)
  next
    case False
    then have "i = k" using i by (auto simp: eq lenR T_def split: if_splits)
    then show ?thesis using lastR by (simp add: eq nth_append lenR)
  qed
qed

lemma zip_edges_widths:
  "map (\<lambda>(a, b). b - a + 1) (zip (butlast u) (map (\<lambda>x. x - 1) (tl u))) = diffs u"
  by (induction u rule: diffs.induct) simp_all

lemma zip_edges_nth:
  assumes "(a, b) \<in> set (zip (butlast u) (map (\<lambda>x. x - 1) (tl u)))"
  shows "\<exists>i. i + 1 < length u \<and> a = u ! i \<and> b = u ! (i + 1) - 1"
proof -
  obtain i where i: "i < length (butlast u)" "i < length (tl u)"
    "a = butlast u ! i" "b = map (\<lambda>x. x - 1) (tl u) ! i"
    using assms by (auto simp: in_set_zip)
  then have "i + 1 < length u" by simp
  moreover have "a = u ! i" using i(1,3) by (simp add: nth_butlast)
  moreover have "b = u ! (i + 1) - 1" using i(2,4) by (simp add: nth_tl)
  ultimately show ?thesis by blast
qed

lemma widths_except_sorted:
  assumes "sorted (filter (\<lambda>d. d \<noteq> 3) (diffs u))"
    and "\<forall>i. i + 1 < length u \<longrightarrow> u ! (i + 1) - u ! i = 3 \<longrightarrow> u ! i = t"
  shows "sorted (widths_except t (butlast u) (map (\<lambda>x. x - 1) (tl u)))"
proof -
  define Z where "Z = zip (butlast u) (map (\<lambda>x. x - 1) (tl u))"
  define w :: "int \<times> int \<Rightarrow> int" where "w = (\<lambda>(a, b). b - a + 1)"
  have 1: "map w Z = diffs u" by (simp add: Z_def w_def zip_edges_widths)
  have "sorted (map w (filter (\<lambda>z. w z \<noteq> 3) Z))"
    using assms(1) by (simp add: 1 [symmetric] filter_map comp_def)
  then have 2: "sorted (map w (filter (\<lambda>z. fst z \<noteq> t) (filter (\<lambda>z. w z \<noteq> 3) Z)))"
    by (rule sorted_filter)
  have "w z \<noteq> 3" if "z \<in> set Z" "fst z \<noteq> t" for z
  proof -
    obtain a b where z: "z = (a, b)" by (cases z)
    have "(a, b) \<in> set (zip (butlast u) (map (\<lambda>x. x - 1) (tl u)))"
      using that(1) by (simp add: z Z_def)
    then obtain i where "i + 1 < length u" "a = u ! i" "b = u ! (i + 1) - 1"
      using zip_edges_nth [of a b u] by blast
    then show ?thesis using assms(2) that(2) by (auto simp: z w_def)
  qed
  then have "filter (\<lambda>z. fst z \<noteq> t) (filter (\<lambda>z. w z \<noteq> 3) Z) = filter (\<lambda>z. fst z \<noteq> t) Z"
    by (simp add: conj_commute) (rule filter_cong, auto)
  then have "sorted (map w (filter (\<lambda>z. fst z \<noteq> t) Z))" using 2 by simp
  then show ?thesis
    by (simp add: widths_except_def Z_def w_def case_prod_unfold)
qed

lemma usb_walk_eight:
  assumes "u0 \<noteq> []" and "\<forall>d\<in>set (diffs u0). 8 \<le> d"
  shows "\<exists>r. usb_walk u0 (last u0 + 8) 8 N = Some r \<and> (\<forall>d\<in>set (diffs r). 8 \<le> d)"
proof -
  define I where "I = (\<lambda>u m (n::int). u \<noteq> [] \<and> m = last u + n \<and> (\<forall>d\<in>set (diffs u). 8 \<le> d))"
  have init: "I u0 (last u0 + 8) 8" using assms by (simp add: I_def)
  have step: "I (u @ [m]) (m + grow n) (grow n)"
    if "I u m n" "8 \<le> n" "n \<le> 1024" "2 * m + n < int N" for u m n
    using that(1,2) by (auto simp: I_def diffs_snoc)
  obtain r m' n' where "usb_walk u0 (last u0 + 8) 8 N = Some r" "I r m' n'"
    using usb_walk_rule [of I u0 "last u0 + 8" 8 N, OF init _ _ step] by auto
  then show ?thesis by (auto simp: I_def)
qed

lemma usb1_init_eight:
  assumes "bin0 < tbin" "(tbin - bin0) mod 8 < 3"
  shows "\<forall>d\<in>set (diffs (usb1_init tbin bin0)). 8 \<le> d"
  using usb1_init_eq [OF assms(1)] assms(2) by (simp add: diffs_ramp)

subsection \<open>Termination\<close>

text \<open>
  C8. Both loops return from the step \<open>8\<close> that the function starts them with, whatever
  the edges, the position and the length are, and so the function returns (a result or
  an exception) on every input. The steps that a loop goes through, \<open>8\<close>, \<open>grow 8\<close>,
  \<open>grow (grow 8)\<close> and so on, never fall below \<open>8\<close> and never decrease.
\<close>

theorem walks_terminate:
  "(\<exists>r. usb_walk usb1 m 8 N = Some r) \<and> (\<exists>r. lsb_walk lsb2 m' 8 = Some r)
   \<and> 8 \<le> (grow ^^ k) 8 \<and> (grow ^^ k) 8 \<le> (grow ^^ Suc k) 8
   \<and> bplogsmooth X tbin f0 \<noteq> None"
proof -
  have "(grow ^^ k) 8 \<le> (grow ^^ Suc k) 8"
    using grow_iterates [of k] grow_bounds [of "(grow ^^ k) 8"] by simp
  moreover have "bplogsmooth X tbin f0 \<noteq> None"
    using bin_edges_returns [of "fft_length X" tbin "mround (f0 * real (fft_length X))"]
    by (auto simp: bplogsmooth_def Let_def split: option.splits sum.splits)
  ultimately show ?thesis
    using usb_walk_returns lsb_walk_returns grow_iterates by blast
qed

subsection \<open>Widths of the bins\<close>

text \<open>
  C3, as the code has it. Whenever the function returns, in each sideband every bin but
  the outermost one is between 3 and 1024 samples wide, and the outermost one, which is
  cut at the end of the half spectrum, is at most 1537 samples wide. Outward from the
  tone the widths of the bins but the outermost one never decrease in the lower
  sideband; in the upper sideband they never decrease once the bin that starts at \<open>tbin\<close>
  is left out, and with that bin too when \<open>tbin\<close> is above the rounded tone bin by less
  than 3 modulo 8.
\<close>

theorem bin_widths:
  assumes "sidebands N tbin bin0 = Some (Inr e)"
  shows "list_all (\<lambda>w. 3 \<le> w \<and> w \<le> 1024) (butlast (upper_widths e) @ butlast (lower_widths e))
         \<and> last (upper_widths e) \<le> 1537 \<and> last (lower_widths e) \<le> 1537
         \<and> sorted (butlast (lower_widths e))
         \<and> sorted (upper_widths_except tbin e)
         \<and> ((tbin - bin0) mod 8 < 3 \<longrightarrow> sorted (butlast (upper_widths e)))"
proof -
  have pre: "bin0 < tbin" "(tbin - bin0) mod 8 \<noteq> 0"
    using sidebands_Inr [OF assms] by simp_all
  obtain lsb2 usb1 where
    e: "e = (map (\<lambda>x. x + 1) (tl lsb2) @ [1], lsb2, usb1, map (\<lambda>x. x - 1) (tl usb1) @ [int (N div 2)])"
    and u: "usb1 \<noteq> []" "\<forall>d\<in>set (diffs usb1). 3 \<le> d \<and> d \<le> 1024"
      "sorted (filter (\<lambda>d. d \<noteq> 3) (diffs usb1))"
    and l: "lsb2 \<noteq> []" "\<forall>d\<in>set (diffs (map uminus lsb2)). 8 \<le> d \<and> d \<le> 1024"
      "sorted (diffs (map uminus lsb2))"
    using sidebands_result [OF pre, of N] assms by auto
  have w: "usb_walk (usb1_init tbin bin0) (last (usb1_init tbin bin0) + 8) 8 N = Some usb1"
    "lsb_walk (lsb2_init tbin bin0) (last (lsb2_init tbin bin0) - 8) 8 = Some lsb2"
    using sidebands_walks [of N tbin bin0] assms by (simp_all add: e)
  have u0: "usb1_init tbin bin0 \<noteq> []" using usb1_init_props(1) [OF pre(1)] .
  have l0: "lsb2_init tbin bin0 \<noteq> []" using pre(2) by (simp add: lsb2_init_empty)
  have uw: "upper_widths e = diffs usb1 @ [int (N div 2) - last usb1 + 1]"
    using u(1) by (simp add: e upper_widths_def widths_upper)
  have lw: "lower_widths e = diffs (map uminus lsb2) @ [last lsb2]"
    using l(1) by (simp add: e lower_widths_def widths_lower)
  have "int N \<le> 2 * last usb1 + 3072"
    using usb_walk_last [OF u0, of N] w(1) by auto
  then have ou: "last (upper_widths e) \<le> 1537"
    by (simp add: uw)
  have ol: "last (lower_widths e) \<le> 1537"
    using lsb_walk_last [OF l0] w(2) by (auto simp: lw)
  have "\<forall>i. i + 1 < length usb1 \<longrightarrow> usb1 ! (i + 1) - usb1 ! i = 3 \<longrightarrow> usb1 ! i = tbin"
    using usb_walk_three [OF u0 usb1_init_three [OF pre(1)], of N] w(1) by auto
  then have ex: "sorted (upper_widths_except tbin e)"
    using widths_except_sorted [OF u(3), of tbin]
    by (simp add: e upper_widths_except_def)
  have full: "sorted (butlast (upper_widths e))" if "(tbin - bin0) mod 8 < 3"
  proof -
    have "\<forall>d\<in>set (diffs usb1). 8 \<le> d"
      using usb_walk_eight [OF u0 usb1_init_eight [OF pre(1) that], of N] w(1) by auto
    then have "filter (\<lambda>d. d \<noteq> 3) (diffs usb1) = diffs usb1"
      by (auto simp: filter_id_conv)
    then show ?thesis using u(3) by (simp add: uw)
  qed
  have "list_all (\<lambda>w. 3 \<le> w \<and> w \<le> 1024) (butlast (upper_widths e) @ butlast (lower_widths e))"
    using u(2) l(2) by (auto simp: uw lw list_all_iff)
  moreover have "sorted (butlast (lower_widths e))"
    using l(3) by (simp add: lw)
  ultimately show ?thesis using ou ol ex full by blast
qed

theorem bin_widths_witness:
  "sidebands 400 113 100
     = Some (Inr ([97, 89, 80, 70, 59, 47, 34, 20, 1], [104, 96, 88, 79, 69, 58, 46, 33, 19],
                  [105, 113, 116, 124, 133, 143, 154, 166, 179],
                  [112, 115, 123, 132, 142, 153, 165, 178, 200]))
   \<and> upper_widths ([97, 89, 80, 70, 59, 47, 34, 20, 1], [104, 96, 88, 79, 69, 58, 46, 33, 19],
                  [105, 113, 116, 124, 133, 143, 154, 166, 179],
                  [112, 115, 123, 132, 142, 153, 165, 178, 200])
       = [8, 3, 8, 9, 10, 11, 12, 13, 22]
   \<and> lower_widths ([97, 89, 80, 70, 59, 47, 34, 20, 1], [104, 96, 88, 79, 69, 58, 46, 33, 19],
                  [105, 113, 116, 124, 133, 143, 154, 166, 179],
                  [112, 115, 123, 132, 142, 153, 165, 178, 200])
       = [8, 8, 9, 10, 11, 12, 13, 14, 19]
   \<and> upper_widths_except 113
        ([97, 89, 80, 70, 59, 47, 34, 20, 1], [104, 96, 88, 79, 69, 58, 46, 33, 19],
         [105, 113, 116, 124, 133, 143, 154, 166, 179],
         [112, 115, 123, 132, 142, 153, 165, 178, 200])
       = [8, 8, 9, 10, 11, 12, 13]
   \<and> list_all (\<lambda>w. 3 \<le> w \<and> w \<le> 1024)
        (butlast [8, 3, 8, 9, 10, 11, 12, 13, 22] @ butlast [8, 8, 9, 10, 11, 12, 13, 14, 19 :: int])
   \<and> last [8, 3, 8, 9, 10, 11, 12, 13, 22 :: int] \<le> 1537
   \<and> last [8, 8, 9, 10, 11, 12, 13, 14, 19 :: int] \<le> 1537
   \<and> sorted (butlast [8, 8, 9, 10, 11, 12, 13, 14, 19 :: int])
   \<and> sorted [8, 8, 9, 10, 11, 12, 13 :: int]
   \<and> sidebands 400 110 100
       = Some (Inr ([94, 85, 75, 64, 52, 39, 25, 10, 1], [101, 93, 84, 74, 63, 51, 38, 24, 9],
                    [102, 110, 118, 127, 137, 148, 160, 173, 187],
                    [109, 117, 126, 136, 147, 159, 172, 186, 200]))
   \<and> (110 - 100) mod 8 < (3::int)
   \<and> upper_widths ([94, 85, 75, 64, 52, 39, 25, 10, 1], [101, 93, 84, 74, 63, 51, 38, 24, 9],
                    [102, 110, 118, 127, 137, 148, 160, 173, 187],
                    [109, 117, 126, 136, 147, 159, 172, 186, 200])
       = [8, 8, 9, 10, 11, 12, 13, 14, 14]
   \<and> sorted (butlast [8, 8, 9, 10, 11, 12, 13, 14, 14 :: int])"
proof -
  define e' :: "int list \<times> int list \<times> int list \<times> int list" where
    "e' = ([94, 85, 75, 64, 52, 39, 25, 10, 1], [101, 93, 84, 74, 63, 51, 38, 24, 9],
           [102, 110, 118, 127, 137, 148, 160, 173, 187],
           [109, 117, 126, 136, 147, 159, 172, 186, 200])"
  have h': "sidebands 400 110 100 = Some (Inr e')"
    by (simp add: eval_simps e'_def)
  have b': "(110 - 100) mod 8 < (3::int)" by simp
  have v': "upper_widths e' = [8, 8, 9, 10, 11, 12, 13, 14, 14]"
    by (simp add: e'_def upper_widths_def widths_def)
  have s': "sorted (butlast (upper_widths e'))"
    using bin_widths [OF h'] b' by blast
  define e :: "int list \<times> int list \<times> int list \<times> int list" where
    "e = ([97, 89, 80, 70, 59, 47, 34, 20, 1], [104, 96, 88, 79, 69, 58, 46, 33, 19],
          [105, 113, 116, 124, 133, 143, 154, 166, 179],
          [112, 115, 123, 132, 142, 153, 165, 178, 200])"
  have h: "sidebands 400 113 100 = Some (Inr e)"
    by (simp add: eval_simps e_def)
  have v: "upper_widths e = [8, 3, 8, 9, 10, 11, 12, 13, 22]"
    "lower_widths e = [8, 8, 9, 10, 11, 12, 13, 14, 19]"
    "upper_widths_except 113 e = [8, 8, 9, 10, 11, 12, 13]"
    by (simp_all add: e_def upper_widths_def lower_widths_def widths_def
        upper_widths_except_def widths_except_def)
  show ?thesis
    using h v bin_widths [OF h] h' b' v' s' unfolding v v' e_def e'_def by simp
qed

text \<open>
  C3 as stated fails. For a spectrum of 100 samples, \<open>tbin = 25\<close> and the tone at bin 12
  the upper widths are 8, 3, 8, 9 and 6: they decrease twice. For 18000 samples,
  \<open>tbin = 1\<close> and the tone at bin 0 the outermost upper bin is 1111 samples wide, and
  for 58970 samples, \<open>tbin = 4\<close> and the tone at bin 0 it is 1537 samples wide.
\<close>

theorem bin_widths_counterexample:
  "map_option (map_sum id upper_widths) (sidebands 100 25 12) = Some (Inr [8, 3, 8, 9, 6])
   \<and> map_option (map_sum id (last \<circ> upper_widths)) (sidebands 18000 1 0) = Some (Inr 1111)
   \<and> map_option (map_sum id (last \<circ> upper_widths)) (sidebands 58970 4 0) = Some (Inr 1537)"
  by (simp add: eval_simps upper_widths_def widths_def)

subsection \<open>Contiguous and non-empty bins\<close>

text \<open>
  C4, as the code has it. Whenever the function returns, the two arrays have one length
  and every bin stops right before the next one starts. Every bin holds at least one
  sample exactly when the edges laid down before the loops fit into the half spectrum:
  the last of the upper ones is at most \<open>N2\<close> and the last of the lower ones is at
  least \<open>1\<close>. Every bin but the first and the last one, which are the outermost bins of
  the sidebands, holds at least one sample in any case.
\<close>

theorem bins_contiguous:
  assumes "bin_edges N tbin bin0 = Some (Inr (startbin, stopbin))"
  shows "length stopbin = length startbin
         \<and> (\<forall>i. i + 1 < length startbin \<longrightarrow> stopbin ! i + 1 = startbin ! (i + 1))
         \<and> ((\<forall>i<length startbin. startbin ! i \<le> stopbin ! i)
              = (last (usb1_init tbin bin0) \<le> int (N div 2) \<and> 1 \<le> last (lsb2_init tbin bin0)))
         \<and> (\<forall>i. 0 < i \<and> i + 1 < length startbin \<longrightarrow> startbin ! i \<le> stopbin ! i)"
proof -
  note s = bin_edges_shape [OF assms]
  have len: "length stopbin = length startbin"
    using s(1) by (simp add: s(3) edges_length)
  have "(\<forall>i<length startbin. startbin ! i \<le> stopbin ! i) = list_all2 (\<le>) startbin stopbin"
    using len by (simp add: list_all2_conv_all_nth)
  also have "\<dots> = ((\<forall>d\<in>set (diffs startbin). 1 \<le> d) \<and> last startbin \<le> int (N div 2) - 1)"
    using edges_nonempty [OF s(1)] by (simp add: s(3))
  finally have ne: "(\<forall>i<length startbin. startbin ! i \<le> stopbin ! i)
      = (last (usb1_init tbin bin0) \<le> int (N div 2) \<and> 1 \<le> last (lsb2_init tbin bin0))"
    by (simp only: s(4))
  have ch: "\<forall>i. i + 1 < length startbin \<longrightarrow> stopbin ! i + 1 = startbin ! (i + 1)"
    using edges_chain [of _ startbin] by (simp add: s(3))
  obtain l u where r: "diffs startbin = last l # rev (diffs (map uminus l)) @ diffs u"
    "\<forall>d\<in>set (diffs u). 3 \<le> d \<and> d \<le> 1024"
    "\<forall>d\<in>set (diffs (map uminus l)). 8 \<le> d \<and> d \<le> 1024"
    using bin_edges_result [OF assms] by blast
  have "startbin ! i \<le> stopbin ! i" if i: "0 < i" "i + 1 < length startbin" for i
  proof -
    define T where "T = rev (diffs (map uminus l)) @ diffs u"
    have "length (diffs startbin) = length startbin - 1" by (rule length_diffs)
    then have "i - 1 < length T" using i by (simp add: r(1) T_def)
    then have "T ! (i - 1) \<in> set T" by (rule nth_mem)
    then have "3 \<le> T ! (i - 1)" using r(2,3) by (auto simp: T_def)
    moreover have "diffs startbin ! i = T ! (i - 1)"
      using i(1) by (simp add: r(1) T_def nth_Cons')
    moreover have "diffs startbin ! i = startbin ! (i + 1) - startbin ! i"
      using i(2) by (rule diffs_nth)
    moreover have "stopbin ! i + 1 = startbin ! (i + 1)" using ch i(2) by blast
    ultimately show ?thesis by linarith
  qed
  then show ?thesis using len ne ch by blast
qed

theorem bins_contiguous_witness:
  "bin_edges 100 25 12 = Some (Inr ([0, 8, 16, 24, 27, 35, 44], [7, 15, 23, 26, 34, 43, 49]))
   \<and> length [7, 15, 23, 26, 34, 43, 49 :: int] = length [0, 8, 16, 24, 27, 35, 44 :: int]
   \<and> [7, 15, 23, 26, 34, 43, 49 :: int] ! 3 + 1 = [0, 8, 16, 24, 27, 35, 44] ! (3 + 1)
   \<and> [0, 8, 16, 24, 27, 35, 44 :: int] ! 6 \<le> [7, 15, 23, 26, 34, 43, 49] ! 6
   \<and> last (usb1_init 25 12) \<le> int (100 div 2) \<and> 1 \<le> last (lsb2_init 25 12)"
proof -
  have h: "bin_edges 100 25 12
             = Some (Inr ([0, 8, 16, 24, 27, 35, 44], [7, 15, 23, 26, 34, 43, 49]))"
    by (simp add: bin_edges_def eval_simps startbin_of_def stopbin_of_def)
  have "last (usb1_init 25 12) \<le> int (100 div 2) \<and> 1 \<le> last (lsb2_init 25 12)"
    by (simp add: eval_simps)
  then show ?thesis using h bins_contiguous [OF h] by simp
qed

text \<open>
  C4 as stated fails: for a spectrum of 100 samples, \<open>tbin = 48\<close> and the tone at bin 12
  the last bin starts at 50 and stops at 49.
\<close>

theorem bins_contiguous_counterexample:
  "bin_edges 100 48 12
     = Some (Inr ([0, 7, 15, 23, 31, 39, 47, 50], [6, 14, 22, 30, 38, 46, 49, 49]))
   \<and> \<not> [0, 7, 15, 23, 31, 39, 47, 50 :: int] ! 7 \<le> [6, 14, 22, 30, 38, 46, 49, 49] ! 7"
  by (simp add: bin_edges_def eval_simps startbin_of_def stopbin_of_def)

subsection \<open>The ends of the half spectrum\<close>

text \<open>
  C7, as the code has it. Whenever the function returns, the first lower bin starts at
  \<open>0\<close> and the last upper bin stops at \<open>N2 - 1\<close>, counted from zero, where \<open>N2\<close> is half
  the length of \<open>X\<close>, rounded down: the bins end in the middle of the spectrum \<open>X\<close>,
  below its last sample.
\<close>

theorem bins_reach_ends:
  assumes "sidebands (fft_length X) tbin bin0 = Some (Inr (lsb1, lsb2, usb1, usb2))"
  shows "usb2 \<noteq> [] \<and> last usb2 - 1 = int (length X div 2) - 1
         \<and> lsb1 \<noteq> [] \<and> last lsb1 - 1 = 0
         \<and> last (stopbin_of (lsb1, lsb2, usb1, usb2)) = int (length X div 2) - 1
         \<and> hd (startbin_of (lsb1, lsb2, usb1, usb2)) = 0
         \<and> (X \<noteq> [] \<longrightarrow> last (stopbin_of (lsb1, lsb2, usb1, usb2)) < int (length X) - 1)"
proof -
  have pre: "bin0 < tbin" "(tbin - bin0) mod 8 \<noteq> 0"
    using sidebands_Inr [OF assms] by simp_all
  have "usb2 = map (\<lambda>x. x - 1) (tl usb1) @ [int (length X div 2)]"
    "lsb1 = map (\<lambda>x. x + 1) (tl lsb2) @ [1]"
    using sidebands_result [OF pre, of "length X"] assms by (auto simp: fft_length_def)
  then have 1: "usb2 \<noteq> [] \<and> last usb2 - 1 = int (length X div 2) - 1
         \<and> lsb1 \<noteq> [] \<and> last lsb1 - 1 = 0
         \<and> last (stopbin_of (lsb1, lsb2, usb1, usb2)) = int (length X div 2) - 1
         \<and> hd (startbin_of (lsb1, lsb2, usb1, usb2)) = 0"
    by (simp add: stopbin_of_def startbin_of_def last_map hd_append)
  have "int (length X div 2) - 1 < int (length X) - 1" if "X \<noteq> []"
  proof -
    have "0 < length X" using that by simp
    then show ?thesis by linarith
  qed
  then show ?thesis using 1 by simp
qed

theorem bins_reach_ends_witness:
  "sidebands (fft_length (replicate 100 0)) 25 12
     = Some (Inr ([9, 1], [16, 8], [17, 25, 28, 36, 45], [24, 27, 35, 44, 50]))
   \<and> replicate 100 (0::complex) \<noteq> []
   \<and> last [24, 27, 35, 44, 50 :: int] - 1 = int (length (replicate 100 (0::complex)) div 2) - 1
   \<and> last [9, 1 :: int] - 1 = 0
   \<and> last (stopbin_of ([9, 1], [16, 8], [17, 25, 28, 36, 45], [24, 27, 35, 44, 50]))
       = int (length (replicate 100 (0::complex)) div 2) - 1
   \<and> hd (startbin_of ([9, 1], [16, 8], [17, 25, 28, 36, 45], [24, 27, 35, 44, 50])) = 0
   \<and> last (stopbin_of ([9, 1], [16, 8], [17, 25, 28, 36, 45], [24, 27, 35, 44, 50]))
       < int (length (replicate 100 (0::complex))) - 1"
proof -
  have h: "sidebands (fft_length (replicate 100 0)) 25 12
             = Some (Inr ([9, 1], [16, 8], [17, 25, 28, 36, 45], [24, 27, 35, 44, 50]))"
    by (simp add: fft_length_def eval_simps)
  have n: "replicate 100 (0::complex) \<noteq> []" by simp
  show ?thesis using h n bins_reach_ends [OF h] by simp
qed

text \<open>
  C7 as stated fails: for a spectrum of 100 samples, \<open>tbin = 25\<close> and the tone at bin 12
  the last bin stops at 49, and the last sample of the spectrum, which is \<open>N2 - 1\<close> for
  the \<open>N\<close> of the specification, is 99.
\<close>

theorem bins_reach_ends_counterexample:
  "bin_edges (fft_length (replicate 100 0)) 25 12
     = Some (Inr ([0, 8, 16, 24, 27, 35, 44], [7, 15, 23, 26, 34, 43, 49]))
   \<and> last [7, 15, 23, 26, 34, 43, 49 :: int] = 49
   \<and> int (spec_fft_length (replicate 100 0) div 2) - 1 = 99
   \<and> int (length (replicate 100 (0::complex))) - 1 = 99
   \<and> last [7, 15, 23, 26, 34, 43, 49 :: int] \<noteq> int (spec_fft_length (replicate 100 0) div 2) - 1"
  by (simp add: fft_length_def spec_fft_length_def bin_edges_def eval_simps
      startbin_of_def stopbin_of_def)

subsection \<open>The bins of both sidebands together\<close>

text \<open>
  C9, as the code has it. Whenever the function returns, the innermost lower bin stops
  right before the innermost upper bin starts. When the edges laid down before the loops
  fit into the half spectrum, the bins hold the indices \<open>0\<close> to \<open>N2 - 1\<close>, each once and
  in order.
\<close>

theorem bins_partition:
  assumes "sidebands N tbin bin0 = Some (Inr (lsb1, lsb2, usb1, usb2))"
  shows "hd lsb2 + 1 = hd usb1
         \<and> stopbin_of (lsb1, lsb2, usb1, usb2) ! (length lsb2 - 1) + 1
             = startbin_of (lsb1, lsb2, usb1, usb2) ! length lsb2
         \<and> (last (usb1_init tbin bin0) \<le> int (N div 2) \<and> 1 \<le> last (lsb2_init tbin bin0)
              \<longrightarrow> covered (startbin_of (lsb1, lsb2, usb1, usb2)) (stopbin_of (lsb1, lsb2, usb1, usb2))
                    = [0..int (N div 2) - 1])"
proof -
  define S where "S = startbin_of (lsb1, lsb2, usb1, usb2)"
  define E where "E = stopbin_of (lsb1, lsb2, usb1, usb2)"
  have be: "bin_edges N tbin bin0 = Some (Inr (S, E))"
    using assms by (simp add: bin_edges_def S_def E_def)
  obtain l u where r: "sidebands N tbin bin0
                  = Some (Inr (map (\<lambda>x. x + 1) (tl l) @ [1], l, u,
                               map (\<lambda>x. x - 1) (tl u) @ [int (N div 2)]))"
    "l \<noteq> []" "u \<noteq> []" "hd l + 1 = hd u" "S = 0 # rev l @ map (\<lambda>x. x - 1) (tl u)"
    using bin_edges_result [OF be] by blast
  have lu: "lsb2 = l" "usb1 = u" using r(1) assms by simp_all
  note s = bin_edges_shape [OF be]
  have len: "length S = length l + length u"
    using r(3) by (simp add: r(5))
  have "length lsb2 - 1 + 1 < length S"
    using r(2,3) by (simp add: len lu)
  then have "E ! (length lsb2 - 1) + 1 = S ! (length lsb2 - 1 + 1)"
    unfolding s(3) by (rule edges_chain)
  moreover have "length lsb2 - 1 + 1 = length lsb2"
    using r(2) by (simp add: lu)
  ultimately have j: "E ! (length lsb2 - 1) + 1 = S ! length lsb2"
    by simp
  have c: "covered S E = [0..int (N div 2) - 1]"
    if "last (usb1_init tbin bin0) \<le> int (N div 2)" "1 \<le> last (lsb2_init tbin bin0)"
  proof -
    have "(\<forall>d\<in>set (diffs S). 1 \<le> d) \<and> last S \<le> int (N div 2) - 1"
      using s(4) that by simp
    then have "sorted_wrt (<) S" "last S \<le> int (N div 2) - 1"
      by (simp_all add: diffs_positive_sorted)
    then show ?thesis
      using edges_covered [OF _ s(1), of "int (N div 2) - 1"] s(2) by (simp add: s(3) [symmetric])
  qed
  have "hd lsb2 + 1 = hd usb1" using r(4) by (simp add: lu)
  then show ?thesis
    using j c unfolding S_def E_def by blast
qed

theorem bins_partition_witness:
  "sidebands 100 25 12 = Some (Inr ([9, 1], [16, 8], [17, 25, 28, 36, 45], [24, 27, 35, 44, 50]))
   \<and> last (usb1_init 25 12) \<le> int (100 div 2) \<and> 1 \<le> last (lsb2_init 25 12)
   \<and> hd [16, 8 :: int] + 1 = hd [17, 25, 28, 36, 45]
   \<and> covered (startbin_of ([9, 1], [16, 8], [17, 25, 28, 36, 45], [24, 27, 35, 44, 50]))
        (stopbin_of ([9, 1], [16, 8], [17, 25, 28, 36, 45], [24, 27, 35, 44, 50]))
       = [0..int (100 div 2) - 1]"
proof -
  have h: "sidebands 100 25 12
             = Some (Inr ([9, 1], [16, 8], [17, 25, 28, 36, 45], [24, 27, 35, 44, 50]))"
    by (simp add: eval_simps)
  have f: "last (usb1_init 25 12) \<le> int (100 div 2) \<and> 1 \<le> last (lsb2_init 25 12)"
    by (simp add: eval_simps)
  show ?thesis using h f bins_partition [OF h] by simp
qed

text \<open>
  C9 as stated fails: for a spectrum of 100 samples, \<open>tbin = 49\<close> and the tone at bin 12
  the bins hold the indices 0 to 50, and \<open>N2 - 1\<close> is 49.
\<close>

theorem bins_partition_counterexample:
  "bin_edges 100 49 12
     = Some (Inr ([0, 8, 16, 24, 32, 40, 48, 51], [7, 15, 23, 31, 39, 47, 50, 49]))
   \<and> covered [0, 8, 16, 24, 32, 40, 48, 51] [7, 15, 23, 31, 39, 47, 50, 49] = [0..50]
   \<and> [0..50] \<noteq> [0..int (100 div 2) - 1]"
  by (simp add: bin_edges_def eval_simps startbin_of_def stopbin_of_def covered_def upto_rec1)

subsection \<open>Indices within the spectrum\<close>

text \<open>
  C10, as the code has it. When the edges laid down before the loops fit into the half
  spectrum (the last of the upper ones is at most \<open>N2\<close>, the last of the lower ones at
  least \<open>1\<close>), every bin starts at \<open>0\<close> or above, stops at \<open>N2 - 1\<close> or below, with
  \<open>N2\<close> at most the length of the spectrum less one, and the divisor
  \<open>stopbin[i] - startbin[i] + 1\<close> is at least \<open>1\<close>.
\<close>

theorem bins_in_bounds:
  assumes "bin_edges (fft_length X) tbin bin0 = Some (Inr (startbin, stopbin))"
    and "last (usb1_init tbin bin0) \<le> int (fft_length X div 2)"
    and "1 \<le> last (lsb2_init tbin bin0)"
    and "i < length startbin"
  shows "0 \<le> startbin ! i \<and> startbin ! i \<le> stopbin ! i
         \<and> stopbin ! i \<le> int (fft_length X div 2) - 1
         \<and> int (fft_length X div 2) \<le> int (length X) - 1
         \<and> 1 \<le> stopbin ! i - startbin ! i + 1"
proof -
  define c where "c = int (fft_length X div 2) - 1"
  note s = bin_edges_shape [OF assms(1)]
  note f = bin_edges_fit [OF assms(1,2,3)]
  have 1: "0 \<le> startbin ! i"
    using sorted_hd_le [OF f(1) assms(4)] s(2) by simp
  have "list_all2 (\<le>) startbin stopbin"
    using edges_nonempty [OF s(1), of c] f(1,2)
    by (simp add: s(3) [symmetric] c_def diffs_positive_sorted)
  then have 2: "startbin ! i \<le> stopbin ! i"
    using assms(4) by (simp add: list_all2_conv_all_nth)
  have 3: "stopbin ! i \<le> c"
  proof (cases "i + 1 < length startbin")
    case True
    have "stopbin ! i + 1 = startbin ! (i + 1)"
      unfolding s(3) using True by (rule edges_chain)
    moreover have "startbin ! (i + 1) \<le> last startbin"
      using sorted_le_last [OF f(1) True] .
    ultimately show ?thesis using f(2) by (simp add: c_def)
  next
    case False
    then have "i = length (map (\<lambda>x. x - 1) (tl startbin))"
      using assms(4) by simp
    then show ?thesis unfolding s(3) c_def by (simp add: nth_append)
  qed
  have 4: "int (fft_length X div 2) \<le> int (length X) - 1"
    using f(3) by (simp add: fft_length_def)
  show ?thesis using 1 2 3 4 by (simp add: c_def)
qed

theorem bins_in_bounds_witness:
  "bin_edges (fft_length (replicate 100 0)) 25 12
     = Some (Inr ([0, 8, 16, 24, 27, 35, 44], [7, 15, 23, 26, 34, 43, 49]))
   \<and> last (usb1_init 25 12) \<le> int (fft_length (replicate 100 0) div 2)
   \<and> 1 \<le> last (lsb2_init 25 12)
   \<and> 0 \<le> [0, 8, 16, 24, 27, 35, 44 :: int] ! 4
   \<and> [0, 8, 16, 24, 27, 35, 44 :: int] ! 4 \<le> [7, 15, 23, 26, 34, 43, 49] ! 4
   \<and> [7, 15, 23, 26, 34, 43, 49] ! 4 \<le> int (fft_length (replicate 100 0) div 2) - 1
   \<and> int (fft_length (replicate 100 0) div 2) \<le> int (length (replicate 100 (0::complex))) - 1"
proof -
  have h: "bin_edges (fft_length (replicate 100 0)) 25 12
             = Some (Inr ([0, 8, 16, 24, 27, 35, 44], [7, 15, 23, 26, 34, 43, 49]))"
    by (simp add: fft_length_def bin_edges_def eval_simps startbin_of_def stopbin_of_def)
  have a: "last (usb1_init 25 12) \<le> int (fft_length (replicate 100 0) div 2)"
    by (simp add: fft_length_def eval_simps)
  have b: "1 \<le> last (lsb2_init 25 12)"
    by (simp add: eval_simps)
  have c: "4 < length [0, 8, 16, 24, 27, 35, 44 :: int]" by simp
  show ?thesis using h a b bins_in_bounds [OF h a b c] by simp
qed

text \<open>
  C10 as stated fails: for a spectrum of 100 samples, \<open>tbin = 5\<close> and the tone at bin 0
  the second bin starts at \<open>-4\<close>, and the divisor of the first bin is \<open>-4\<close>.
\<close>

theorem bins_in_bounds_counterexample:
  "bin_edges (fft_length (replicate 100 0)) 5 0
     = Some (Inr ([0, - 4, 4, 7, 15, 24, 34], [- 5, 3, 6, 14, 23, 33, 49]))
   \<and> [0, - 4, 4, 7, 15, 24, 34 :: int] ! 1 < 0
   \<and> [- 5, 3, 6, 14, 23, 33, 49 :: int] ! 0 - [0, - 4, 4, 7, 15, 24, 34] ! 0 + 1 < 1"
  by (simp add: fft_length_def bin_edges_def eval_simps startbin_of_def stopbin_of_def)

subsection \<open>The frequencies\<close>

text \<open>
  C6, as the code has it. Whenever the function returns, there are as many powers as
  frequencies. When the edges laid down before the loops fit into the half spectrum, the
  frequencies are finite and strictly ascending.
\<close>

theorem freqs_ascending:
  assumes "bplogsmooth X tbin f0 = Some (Inr (f, p))"
  shows "length f = length p
         \<and> (last (usb1_init tbin (mround (f0 * real (length X)))) \<le> int (length X div 2)
              \<and> 1 \<le> last (lsb2_init tbin (mround (f0 * real (length X))))
            \<longrightarrow> strictly_ascending f)"
proof -
  obtain startbin stopbin where
    r: "bin_edges (length X) tbin (mround (f0 * real (length X))) = Some (Inr (startbin, stopbin))"
      "f = freqs (length X) f0 startbin stopbin" "p = powers X startbin stopbin f"
    using bplogsmooth_Inr [OF assms] by blast
  have len: "length f = length p" by (simp add: r(3) powers_def)
  have asc: "strictly_ascending f"
    if "last (usb1_init tbin (mround (f0 * real (length X)))) \<le> int (length X div 2)"
      "1 \<le> last (lsb2_init tbin (mround (f0 * real (length X))))"
  proof -
    note s = bin_edges_shape [OF r(1)]
    note t = bin_edges_fit [OF r(1) that]
    have "0 < length X" using t(3) by (cases X) simp_all
    then show ?thesis
      using freqs_ascending_aux [OF t(1) s(1) t(2), of "length X" f0]
      by (simp add: r(2) s(3) [symmetric])
  qed
  show ?thesis using len asc by blast
qed

theorem freqs_ascending_witness:
  "map_option (map_sum id fst) (bplogsmooth (replicate 100 0) 25 (3 / 25))
     = Some (Inr [Some (- 17 / 200), Some (- 1 / 200), Some (3 / 40), Some (13 / 100),
                  Some (37 / 200), Some (27 / 100), Some (69 / 200)])
   \<and> last (usb1_init 25 (mround (3 / 25 * real (length (replicate 100 (0::complex))))))
        \<le> int (length (replicate 100 (0::complex)) div 2)
   \<and> 1 \<le> last (lsb2_init 25 (mround (3 / 25 * real (length (replicate 100 (0::complex))))))
   \<and> strictly_ascending [Some (- 17 / 200), Some (- 1 / 200), Some (3 / 40), Some (13 / 100),
                  Some (37 / 200), Some (27 / 100), Some (69 / 200)]"
proof -
  define F :: "real option list" where
    "F = [Some (- 17 / 200), Some (- 1 / 200), Some (3 / 40), Some (13 / 100),
          Some (37 / 200), Some (27 / 100), Some (69 / 200)]"
  define P where "P = powers (replicate 100 0) [0, 8, 16, 24, 27, 35, 44] [7, 15, 23, 26, 34, 43, 49] F"
  have h: "bplogsmooth (replicate 100 0) 25 (3 / 25) = Some (Inr (F, P))"
    by (simp add: bplogsmooth_def fft_length_def mround_def bin_edges_def eval_simps
        startbin_of_def stopbin_of_def freqs_def Let_def F_def P_def)
  have a: "last (usb1_init 25 (mround (3 / 25 * real (length (replicate 100 (0::complex))))))
        \<le> int (length (replicate 100 (0::complex)) div 2)
     \<and> 1 \<le> last (lsb2_init 25 (mround (3 / 25 * real (length (replicate 100 (0::complex))))))"
    by (simp add: mround_def eval_simps)
  have "strictly_ascending F"
    using freqs_ascending [OF h] a by blast
  then show ?thesis
    using h a unfolding F_def by simp
qed

text \<open>
  C6 as stated fails: for a spectrum of 33 samples, \<open>tbin = 30\<close> and \<open>f0 = 1/8\<close> the last
  frequency, \<open>13/24\<close>, is below the one before it, \<open>163/264\<close>.
\<close>

theorem freqs_ascending_counterexample:
  "map_option (map_sum id fst) (bplogsmooth (replicate 33 0) 30 (1 / 8))
     = Some (Inr [Some (- 17 / 264), Some (35 / 264), Some (3 / 8), Some (163 / 264), Some (13 / 24)])
   \<and> \<not> strictly_ascending
         [Some (- 17 / 264), Some (35 / 264), Some (3 / 8), Some (163 / 264), Some (13 / 24)]"
proof -
  have "map_option (map_sum id fst) (bplogsmooth (replicate 33 0) 30 (1 / 8))
     = Some (Inr [Some (- 17 / 264), Some (35 / 264), Some (3 / 8), Some (163 / 264), Some (13 / 24)])"
    by (simp add: bplogsmooth_def fft_length_def mround_def bin_edges_def eval_simps
        startbin_of_def stopbin_of_def freqs_def Let_def)
  moreover have "\<not> sorted_wrt (<) (map the
         [Some (- 17 / 264), Some (35 / 264), Some (3 / 8), Some (163 / 264), Some (13 / 24 :: real)])"
    by (simp only: list.map option.sel sorted_wrt_less_Cons2) simp
  ultimately show ?thesis
    unfolding strictly_ascending_def by blast
qed

subsection \<open>The powers\<close>

text \<open>
  C5, as the code has it. Whenever the function returns, for every bin that lies within
  the spectrum and holds at least one sample, \<open>0 \<le> startbin[i] \<le> stopbin[i] < len(X)\<close>,
  the power \<open>p[i]\<close> is \<^verbatim>\<open>dbp\<close> of the mean of the squared magnitudes of the samples from
  \<open>startbin[i]\<close> to \<open>stopbin[i]\<close>, both included, for complex samples as well.
\<close>

theorem powers_mean:
  assumes "bplogsmooth X tbin f0 = Some (Inr (f, p))"
    and "bin_edges (length X) tbin (mround (f0 * real (length X))) = Some (Inr (startbin, stopbin))"
    and "i < length p"
    and "0 \<le> startbin ! i" "startbin ! i \<le> stopbin ! i" "stopbin ! i < int (length X)"
  shows "p ! i = dbp (mean_sq X (startbin ! i) (stopbin ! i))"
proof -
  have p: "p = powers X startbin stopbin f"
    using bplogsmooth_Inr [OF assms(1)] assms(2) by auto
  then have "i < length f" using assms(3) by (simp add: powers_def)
  then show ?thesis
    using assms(4,5,6) by (simp add: p powers_def bin_power_mean)
qed

theorem powers_mean_witness:
  "bplogsmooth (replicate 100 2) 25 (3 / 25)
     = Some (Inr ([Some (- 17 / 200), Some (- 1 / 200), Some (3 / 40), Some (13 / 100),
                   Some (37 / 200), Some (27 / 100), Some (69 / 200)],
                  powers (replicate 100 2) [0, 8, 16, 24, 27, 35, 44] [7, 15, 23, 26, 34, 43, 49]
                    [Some (- 17 / 200), Some (- 1 / 200), Some (3 / 40), Some (13 / 100),
                     Some (37 / 200), Some (27 / 100), Some (69 / 200 :: real)]))
   \<and> bin_edges (length (replicate 100 (2::complex))) 25
         (mround (3 / 25 * real (length (replicate 100 (2::complex)))))
       = Some (Inr ([0, 8, 16, 24, 27, 35, 44], [7, 15, 23, 26, 34, 43, 49]))
   \<and> 0 \<le> [0, 8, 16, 24, 27, 35, 44 :: int] ! 4
   \<and> [0, 8, 16, 24, 27, 35, 44 :: int] ! 4 \<le> [7, 15, 23, 26, 34, 43, 49] ! 4
   \<and> [7, 15, 23, 26, 34, 43, 49] ! 4 < int (length (replicate 100 (2::complex)))
   \<and> powers (replicate 100 2) [0, 8, 16, 24, 27, 35, 44] [7, 15, 23, 26, 34, 43, 49]
        [Some (- 17 / 200), Some (- 1 / 200), Some (3 / 40), Some (13 / 100),
         Some (37 / 200), Some (27 / 100), Some (69 / 200 :: real)] ! 4
       = dbp (mean_sq (replicate 100 2) 27 34)
   \<and> dbp (mean_sq (replicate 100 2) 27 34) = Some (10 * log 10 4)"
proof -
  define F :: "real option list" where
    "F = [Some (- 17 / 200), Some (- 1 / 200), Some (3 / 40), Some (13 / 100),
          Some (37 / 200), Some (27 / 100), Some (69 / 200)]"
  define S :: "int list" where "S = [0, 8, 16, 24, 27, 35, 44]"
  define E :: "int list" where "E = [7, 15, 23, 26, 34, 43, 49]"
  define P where "P = powers (replicate 100 2) S E F"
  have e: "bin_edges (length (replicate 100 (2::complex))) 25
         (mround (3 / 25 * real (length (replicate 100 (2::complex))))) = Some (Inr (S, E))"
    by (simp add: mround_def bin_edges_def eval_simps startbin_of_def stopbin_of_def S_def E_def)
  have h: "bplogsmooth (replicate 100 2) 25 (3 / 25) = Some (Inr (F, P))"
    using e by (simp add: bplogsmooth_def fft_length_def freqs_def Let_def F_def P_def S_def E_def)
  have i: "4 < length P" by (simp add: P_def powers_def F_def)
  have a: "0 \<le> S ! 4" "S ! 4 \<le> E ! 4" "E ! 4 < int (length (replicate 100 (2::complex)))"
    by (simp_all add: S_def E_def)
  have "P ! 4 = dbp (mean_sq (replicate 100 2) (S ! 4) (E ! 4))"
    using powers_mean [OF h e i a] .
  then have r: "P ! 4 = dbp (mean_sq (replicate 100 2) 27 34)"
    by (simp add: S_def E_def)
  have m: "dbp (mean_sq (replicate 100 2) 27 34) = Some (10 * log 10 4)"
    by (simp add: mean_sq_def dbp_def upto_rec1)
  show ?thesis
    using h e a r m unfolding P_def F_def S_def E_def by simp
qed

text \<open>
  C5 as stated fails. For a spectrum of 24 samples, all of them 1, \<open>tbin = 5\<close> and
  \<open>f0 = 0\<close> the first bin goes from 0 to \<open>-5\<close> and holds no sample, but the slice
  \<^verbatim>\<open>X[0:-4]\<close> holds twenty and the divisor is \<open>-4\<close>: the power is \<^verbatim>\<open>dbp\<close> of 5.
\<close>

theorem powers_mean_counterexample:
  "bin_edges (fft_length (replicate 24 1)) 5 (mround (0 * real (fft_length (replicate 24 1))))
     = Some (Inr ([0, - 4, 4, 7], [- 5, 3, 6, 11]))
   \<and> map_option (map_sum id (\<lambda>r. snd r ! 0)) (bplogsmooth (replicate 24 1) 5 0)
       = Some (Inr (Some (10 * log 10 5)))
   \<and> dbp (mean_sq (replicate 24 1) ([0, - 4, 4, 7] ! 0) ([- 5, 3, 6, 11] ! 0)) = None"
proof -
  have e: "bin_edges (fft_length (replicate 24 1)) 5 (mround (0 * real (fft_length (replicate 24 1))))
     = Some (Inr ([0, - 4, 4, 7], [- 5, 3, 6, 11]))"
    by (simp add: fft_length_def mround_def bin_edges_def eval_simps startbin_of_def stopbin_of_def)
  have "bin_power (replicate 24 1) 0 (- 5) = 5"
    by (simp add: bin_power_def pyslice_def clip_index_def norm1_replicate norm_divide)
  then have "map_option (map_sum id (\<lambda>r. snd r ! 0)) (bplogsmooth (replicate 24 1) 5 0)
       = Some (Inr (Some (10 * log 10 5)))"
    using e by (simp add: bplogsmooth_def Let_def powers_def freqs_def dbp_def)
  moreover have "dbp (mean_sq (replicate 24 1) ([0, - 4, 4, 7] ! 0) ([- 5, 3, 6, 11] ! 0)) = None"
    by (simp add: mean_sq_def dbp_def)
  ultimately show ?thesis using e by blast
qed

subsection \<open>The length that the function works with\<close>

text \<open>
  C2, as the code has it. The length \<open>N\<close> is the length of the spectrum: whenever the
  function returns, \<open>tbin\<close> is above the rounding of \<open>f0\<close> times the length of \<open>X\<close>, the
  last bin stops at half the length of \<open>X\<close>, rounded down, less one, and every
  frequency is the middle of its bin over the length of \<open>X\<close>, less \<open>f0\<close>.
\<close>

theorem fft_length_used:
  assumes "bplogsmooth X tbin f0 = Some (Inr (f, p))"
  shows "fft_length X = length X
         \<and> mround (f0 * real (length X)) < tbin
         \<and> (\<exists>startbin stopbin.
               bin_edges (length X) tbin (mround (f0 * real (length X)))
                 = Some (Inr (startbin, stopbin))
               \<and> last stopbin = int (length X div 2) - 1
               \<and> f = map2 (\<lambda>a b. if length X = 0 then None
                                    else Some (((real_of_int a + real_of_int b) / 2)
                                               / real (length X) - f0))
                       startbin stopbin)"
proof -
  obtain startbin stopbin where
    r: "bin_edges (length X) tbin (mround (f0 * real (length X))) = Some (Inr (startbin, stopbin))"
      "f = freqs (length X) f0 startbin stopbin"
    using bplogsmooth_Inr [OF assms] by blast
  have "\<not> tbin \<le> mround (f0 * real (length X))"
    using bin_edges_precondition [of "length X" tbin "mround (f0 * real (length X))"] r(1)
    by simp
  moreover have "last stopbin = int (length X div 2) - 1"
    using bin_edges_shape(3) [OF r(1)] by simp
  ultimately show ?thesis
    using r by (auto simp: fft_length_def freqs_def)
qed

theorem fft_length_used_witness:
  "bplogsmooth (replicate 100 0) 25 (3 / 25)
     = Some (Inr ([Some (- 17 / 200), Some (- 1 / 200), Some (3 / 40), Some (13 / 100),
                  Some (37 / 200), Some (27 / 100), Some (69 / 200)],
                 powers (replicate 100 0) [0, 8, 16, 24, 27, 35, 44] [7, 15, 23, 26, 34, 43, 49]
                   [Some (- 17 / 200), Some (- 1 / 200), Some (3 / 40), Some (13 / 100),
                    Some (37 / 200), Some (27 / 100), Some (69 / 200 :: real)]))
   \<and> fft_length (replicate 100 0) = length (replicate 100 (0::complex))
   \<and> mround (3 / 25 * real (length (replicate 100 (0::complex)))) < 25"
proof -
  define F :: "real option list" where
    "F = [Some (- 17 / 200), Some (- 1 / 200), Some (3 / 40), Some (13 / 100),
          Some (37 / 200), Some (27 / 100), Some (69 / 200)]"
  define P where "P = powers (replicate 100 0) [0, 8, 16, 24, 27, 35, 44] [7, 15, 23, 26, 34, 43, 49] F"
  have h: "bplogsmooth (replicate 100 0) 25 (3 / 25) = Some (Inr (F, P))"
    by (simp add: bplogsmooth_def fft_length_def mround_def bin_edges_def eval_simps
        startbin_of_def stopbin_of_def freqs_def Let_def F_def P_def)
  have "fft_length (replicate 100 0) = length (replicate 100 (0::complex))
        \<and> mround (3 / 25 * real (length (replicate 100 (0::complex)))) < 25"
    using fft_length_used [OF h] by blast
  then show ?thesis
    using h unfolding F_def P_def by blast
qed

text \<open>
  C2 as stated fails: for a spectrum of 100 samples \<open>N\<close> is 100 and not 200, and with
  \<open>tbin = 25\<close> and \<open>f0 = 3/25\<close> the middles of the bins are divided by 100.
\<close>

theorem fft_length_used_counterexample:
  "fft_length (replicate 100 0) = 100 \<and> spec_fft_length (replicate 100 0) = 200
   \<and> fft_length (replicate 100 0) \<noteq> spec_fft_length (replicate 100 0)
   \<and> map_option (map_sum id fst) (bplogsmooth (replicate 100 0) 25 (3 / 25))
       = Some (Inr [Some ((((0 + 7) / 2) / 100) - 3 / 25), Some ((((8 + 15) / 2) / 100) - 3 / 25),
                    Some ((((16 + 23) / 2) / 100) - 3 / 25), Some ((((24 + 26) / 2) / 100) - 3 / 25),
                    Some ((((27 + 34) / 2) / 100) - 3 / 25), Some ((((35 + 43) / 2) / 100) - 3 / 25),
                    Some ((((44 + 49) / 2) / 100) - 3 / 25)])"
  by (simp add: bplogsmooth_def fft_length_def spec_fft_length_def mround_def bin_edges_def
      eval_simps startbin_of_def stopbin_of_def freqs_def Let_def)

subsection \<open>Exceptions\<close>

text \<open>
  C1 fails on the code. For a spectrum of 100 samples, \<open>tbin = 8\<close> and \<open>f0 = 0\<close> the bin
  \<open>tbin\<close> is above the rounded tone bin, and the function raises \<^verbatim>\<open>IndexError\<close>: the
  lower edges before the loop are an empty array, whose last element line 63 reads. By
  \<open>bplogsmooth_raises\<close> this happens, for a spectrum of more than one sample, exactly
  when \<open>tbin\<close> is above the rounded tone bin by a multiple of 8.
\<close>

theorem bplogsmooth_index_error:
  "mround (0 * real (fft_length (replicate 100 0))) < 8
   \<and> bplogsmooth (replicate 100 0) 8 0 = Some (Inl IndexError)"
  by (simp add: bplogsmooth_def fft_length_def mround_def bin_edges_def eval_simps Let_def)

end
